theory Spec2Isabelle
  imports Main "HOL-Library.Sublist"
begin

section \<open>JavaScript strings\<close>

text \<open>
  A JavaScript string is a sequence of UTF-16 code units. It is modelled as a
  \<^typ>\<open>string\<close> whose characters are the code units; the model therefore covers the
  strings whose code units are below 256 (ASCII and Latin-1), which includes every
  literal of the source that the functions below compare against.
\<close>

definition LF :: char where
  "LF = CHR 0x0A"

definition CR :: char where
  "CR = CHR 0x0D"

definition DQUOTE :: char where
  "DQUOTE = CHR 0x22"

definition APOSTROPHE :: char where
  "APOSTROPHE = CHR 0x27"

definition BACKTICK :: char where
  "BACKTICK = CHR 0x60"

definition isWhiteSpace :: "char \<Rightarrow> bool" where
  \<comment> \<open>White space and line terminators removed by \<open>String.prototype.trim\<close>:
      TAB, LF, VT, FF, CR, SP and NBSP.\<close>
  "isWhiteSpace c =
     (c \<in> set [CHR 0x09, CHR 0x0A, CHR 0x0B, CHR 0x0C, CHR 0x0D, CHR 0x20, CHR 0xA0])"

definition trim :: "string \<Rightarrow> string" where
  "trim s = rev (dropWhile isWhiteSpace (rev (dropWhile isWhiteSpace s)))"

definition isLineTerminator :: "char \<Rightarrow> bool" where
  \<comment> \<open>The characters the regular-expression dot does not match.\<close>
  "isLineTerminator c = (c = LF \<or> c = CR)"

definition isAsciiLetter :: "char \<Rightarrow> bool" where
  \<comment> \<open>\<open>[a-zA-Z]\<close>\<close>
  "isAsciiLetter c =
     (c \<in> set ''abcdefghijklmnopqrstuvwxyzABCDEFGHIJKLMNOPQRSTUVWXYZ'')"

definition isDigit :: "char \<Rightarrow> bool" where
  \<comment> \<open>\<open>\d\<close>\<close>
  "isDigit c = (c \<in> set ''0123456789'')"

definition isWordChar :: "char \<Rightarrow> bool" where
  \<comment> \<open>\<open>\w\<close>\<close>
  "isWordChar c = (isAsciiLetter c \<or> isDigit c \<or> c = CHR ''_'')"

definition isPathChar :: "char \<Rightarrow> bool" where
  \<comment> \<open>\<open>[\w./-]\<close>\<close>
  "isPathChar c = (isWordChar c \<or> c = CHR ''.'' \<or> c = CHR ''/'' \<or> c = CHR ''-'')"

definition firstLineOf :: "string \<Rightarrow> string" where
  \<comment> \<open>\<open>s.split('\n')[0]\<close>\<close>
  "firstLineOf s = takeWhile (\<lambda>c. c \<noteq> LF) s"

section \<open>The extractor: \<open>parseWithRegex\<close>\<close>

record ParsedFile =
  path :: string
  content :: string

definition sectionDelimiter :: string where
  \<comment> \<open>the text matched by \<open>/\n---\n/\<close>\<close>
  "sectionDelimiter = [LF, CHR ''-'', CHR ''-'', CHR ''-'', LF]"

fun splitSections :: "string \<Rightarrow> string list" where
  \<comment> \<open>\<open>fileContent.split(/\n---\n/)\<close>: the matches are found from left to right and
      do not overlap; the empty string splits into one empty section.\<close>
  "splitSections [] = [[]]"
| "splitSections (c # cs) =
     (if prefix sectionDelimiter (c # cs) then [] # splitSections (drop 4 cs)
      else (case splitSections cs of
              [] \<Rightarrow> [[c]]
            | s # ss \<Rightarrow> (c # s) # ss))"

fun lastBacktickPath :: "string \<Rightarrow> string option" where
  \<comment> \<open>The capture of \<open>.*`([\w./-]+)`\<close> on a text without line terminators: the
      greedy \<open>.*\<close> makes the last backtick that opens a well-formed path win.\<close>
  "lastBacktickPath [] = None"
| "lastBacktickPath (c # cs) =
     (case lastBacktickPath cs of
        Some p \<Rightarrow> Some p
      | None \<Rightarrow>
          (if c = BACKTICK \<and> takeWhile isPathChar cs \<noteq> []
                \<and> prefix [BACKTICK] (dropWhile isPathChar cs)
           then Some (takeWhile isPathChar cs) else None))"

definition fileHeaderRegex :: "string \<Rightarrow> string option" where
  \<comment> \<open>\<open>firstLine.match(/^#+.*`([\w./-]+)`/)\<close>, giving the capture \<open>match[1]\<close>.\<close>
  "fileHeaderRegex line =
     (case line of
        [] \<Rightarrow> None
      | c # cs \<Rightarrow>
          if c = CHR ''#'' then lastBacktickPath (takeWhile (\<lambda>d. \<not> isLineTerminator d) cs)
          else None)"

definition closingFence :: string where
  "closingFence = [LF, BACKTICK, BACKTICK, BACKTICK]"

fun untilClosingFence :: "string \<Rightarrow> string option" where
  \<comment> \<open>The lazy capture \<open>([\s\S]*?)\<close> followed by \<open>\n```\<close>.\<close>
  "untilClosingFence [] = None"
| "untilClosingFence (c # cs) =
     (if prefix closingFence (c # cs) then Some []
      else map_option ((#) c) (untilClosingFence cs))"

definition codeBlockAt :: "string \<Rightarrow> string option" where
  \<comment> \<open>A match of \<open>```(?:[a-zA-Z]+)?\n([\s\S]*?)\n```\<close> starting at the head of the text.\<close>
  "codeBlockAt s =
     (if prefix [BACKTICK, BACKTICK, BACKTICK] s then
        (case dropWhile isAsciiLetter (drop 3 s) of
           [] \<Rightarrow> None
         | c # cs \<Rightarrow> if c = LF then untilClosingFence cs else None)
      else None)"

fun codeBlockRegex :: "string \<Rightarrow> string option" where
  \<comment> \<open>\<open>trimmedSection.match(codeBlockRegex)\<close>: the leftmost match, giving its capture.\<close>
  "codeBlockRegex [] = None"
| "codeBlockRegex (c # cs) =
     (case codeBlockAt (c # cs) of
        Some body \<Rightarrow> Some body
      | None \<Rightarrow> codeBlockRegex cs)"

definition parseSection :: "string \<Rightarrow> ParsedFile option" where
  \<comment> \<open>The body of the loop over the sections; \<open>None\<close> when nothing is pushed.\<close>
  "parseSection sect =
     (let trimmedSection = trim sect in
      if trimmedSection = [] then None
      else
        (let firstLine = trim (firstLineOf trimmedSection) in
         case fileHeaderRegex firstLine of
           None \<Rightarrow> None
         | Some p \<Rightarrow>
             (let codeMatch = codeBlockRegex trimmedSection;
                  body = (case codeMatch of
                            Some b \<Rightarrow> if b \<noteq> [] then trim b
                                      else trim (drop (length firstLine) trimmedSection)
                          | None \<Rightarrow> trim (drop (length firstLine) trimmedSection))
              in Some \<lparr>path = p, content = body\<rparr>)))"

fun collectFiles :: "string list \<Rightarrow> ParsedFile list" where
  "collectFiles [] = []"
| "collectFiles (s # ss) =
     (case parseSection s of
        None \<Rightarrow> collectFiles ss
      | Some f \<Rightarrow> f # collectFiles ss)"

definition iconPrefix :: string where
  "iconPrefix = DQUOTE # ''icons/icon''"

definition iconSuffix :: string where
  "iconSuffix = ''.png'' @ [DQUOTE]"

definition iconAt :: "string \<Rightarrow> (string \<times> nat) option" where
  \<comment> \<open>A match of \<open>"(icons\/icon\d+\.png)"\<close> at the head of the text: the capture and
      the number of characters the match spans.\<close>
  "iconAt s =
     (if prefix iconPrefix s then
        (let ds = takeWhile isDigit (drop 11 s) in
         if ds \<noteq> [] \<and> prefix iconSuffix (dropWhile isDigit (drop 11 s))
         then Some (''icons/icon'' @ ds @ ''.png'', 11 + length ds + 5)
         else None)
      else None)"

fun iconPaths :: "string \<Rightarrow> string list" where
  \<comment> \<open>\<open>[...content.matchAll(/"(icons\/icon\d+\.png)"/g)].map(m => m[1])\<close>\<close>
  "iconPaths [] = []"
| "iconPaths (c # cs) =
     (case iconAt (c # cs) of
        Some (p, n) \<Rightarrow> p # iconPaths (drop (n - 1) cs)
      | None \<Rightarrow> iconPaths cs)"

fun newSet :: "string list \<Rightarrow> string list \<Rightarrow> string list" where
  \<comment> \<open>\<open>[...new Set(xs)]\<close>: the elements in the order of their first insertion.\<close>
  "newSet acc [] = acc"
| "newSet acc (x # xs) = newSet (if x \<in> set acc then acc else acc @ [x]) xs"

fun pushMissingIcons :: "ParsedFile list \<Rightarrow> string list \<Rightarrow> ParsedFile list" where
  "pushMissingIcons files [] = files"
| "pushMissingIcons files (iconPath # rest) =
     pushMissingIcons
       (if iconPath \<in> set (map path files) then files
        else files @ [\<lparr>path = iconPath, content = []\<rparr>])
       rest"

definition addManifestIcons :: "ParsedFile list \<Rightarrow> ParsedFile list" where
  "addManifestIcons files =
     (case find (\<lambda>f. path f = ''manifest.json'') files of
        None \<Rightarrow> files
      | Some manifestFile \<Rightarrow>
          pushMissingIcons files (newSet [] (iconPaths (content manifestFile))))"

definition parseWithRegex :: "string \<Rightarrow> ParsedFile list" where
  "parseWithRegex fileContent = addManifestIcons (collectFiles (splitSections fileContent))"

section \<open>Values returned by \<open>JSON.parse\<close>\<close>

datatype json =
    JNull
  | JBool bool
  | JNumber int
  | JString string
  | JArray "json list"
  | JObject "(string \<times> json) list"

text \<open>
  The code never computes with a number, it only tests values for truthiness, so the
  payload of \<^const>\<open>JNumber\<close> matters only in being zero or not. An object is the list
  of its own properties, each key once.
\<close>

fun truthy :: "json \<Rightarrow> bool" where
  "truthy JNull = False"
| "truthy (JBool b) = b"
| "truthy (JNumber n) = (n \<noteq> 0)"
| "truthy (JString s) = (s \<noteq> [])"
| "truthy (JArray xs) = True"
| "truthy (JObject kvs) = True"

fun getProp :: "json \<Rightarrow> string \<Rightarrow> json option" where
  \<comment> \<open>\<open>v.key\<close> for the keys the code reads (\<open>additionalFiles\<close>, \<open>documentationNotes\<close>,
      \<open>path\<close>, \<open>content\<close>), none of which is a property of a primitive wrapper or of an
      array; \<open>None\<close> is \<open>undefined\<close>. The code guards every read against \<open>null\<close>.\<close>
  "getProp (JObject kvs) key = map_of kvs key"
| "getProp v key = None"

section \<open>The AI gateway and its environment\<close>

datatype thrown =
    ErrorObj string
  | NonError string

text \<open>
  A thrown value is either an \<open>Error\<close> instance with its \<open>message\<close>, or some other value,
  kept as the text \<open>String(value)\<close> gives.
\<close>

datatype responseSchema = fileFinderSchema | docExtractorSchema

datatype aiResponse =
    Rejects thrown
  | Responds string

text \<open>
  The outcome of \<open>await ai.models.generateContent(...)\<close> followed by the read of
  \<open>response.text\<close>: either the call throws, or it yields the text. A response whose \<open>text\<close>
  is undefined makes the \<open>trim\<close> that every step applies next throw a \<open>TypeError\<close> inside the
  same \<open>try\<close> block, so it is a \<^const>\<open>Rejects\<close> outcome too.
\<close>

type_synonym GoogleGenAI = "string \<Rightarrow> responseSchema option \<Rightarrow> aiResponse"

record environment =
  API_KEY :: "string option"
  newGoogleGenAI :: "string \<Rightarrow> GoogleGenAI"
  JSON_parse :: "string \<Rightarrow> json option"

text \<open>
  What the surroundings supply when a step runs: the value of \<open>process.env.API_KEY\<close>, the
  remote service behind a client built for an API key, and the built-in \<open>JSON.parse\<close>
  (\<open>None\<close> when it throws a \<open>SyntaxError\<close>).
\<close>

definition getAiClient :: "environment \<Rightarrow> string \<Rightarrow> GoogleGenAI option" where
  "getAiClient env apiKeyOverride =
     (let apiKey = (if apiKeyOverride \<noteq> [] then Some apiKeyOverride else API_KEY env) in
      case apiKey of
        None \<Rightarrow> None
      | Some k \<Rightarrow> if k = [] then None else Some (newGoogleGenAI env k))"

section \<open>\<open>String.prototype.replace\<close> with a string pattern\<close>

fun findFirst :: "string \<Rightarrow> string \<Rightarrow> (string \<times> string) option" where
  \<comment> \<open>The text before and the text after the first occurrence of the pattern.\<close>
  "findFirst pat [] = (if pat = [] then Some ([], []) else None)"
| "findFirst pat (c # cs) =
     (if prefix pat (c # cs) then Some ([], drop (length pat) (c # cs))
      else map_option (\<lambda>(b, a). (c # b, a)) (findFirst pat cs))"

fun getSubstitution :: "string \<Rightarrow> string \<Rightarrow> string \<Rightarrow> string \<Rightarrow> string" where
  \<comment> \<open>The replacement text is a template: \<open>$$\<close> is a dollar sign, \<open>$&\<close> the match,
      \<open>$`\<close> the text preceding it and \<open>$'\<close> the text following it. With a string pattern there
      are no captures, so every other dollar sign stands for itself.\<close>
  "getSubstitution matched preceding following [] = []"
| "getSubstitution matched preceding following [c] = [c]"
| "getSubstitution matched preceding following (c # d # r) =
     (if c = CHR ''$'' then
        (if d = CHR ''$'' then CHR ''$'' # getSubstitution matched preceding following r
         else if d = CHR ''&'' then matched @ getSubstitution matched preceding following r
         else if d = BACKTICK then preceding @ getSubstitution matched preceding following r
         else if d = APOSTROPHE then following @ getSubstitution matched preceding following r
         else c # getSubstitution matched preceding following (d # r))
      else c # getSubstitution matched preceding following (d # r))"

definition replace :: "string \<Rightarrow> string \<Rightarrow> string \<Rightarrow> string" where
  \<comment> \<open>\<open>s.replace(pat, replacement)\<close>: the first occurrence only.\<close>
  "replace s pat replacement =
     (case findFirst pat s of
        None \<Rightarrow> s
      | Some (preceding, following) \<Rightarrow> preceding @ getSubstitution pat preceding following replacement @ following)"

section \<open>\<open>JSON.stringify\<close> of an array of strings\<close>

definition hexDigit :: "nat \<Rightarrow> char" where
  "hexDigit n = ''0123456789abcdef'' ! (n mod 16)"

definition BACKSLASH :: char where
  "BACKSLASH = CHR 0x5C"

definition quoteJSONChar :: "char \<Rightarrow> string" where
  "quoteJSONChar c =
     (if c = CHR 0x08 then [BACKSLASH, CHR ''b'']
      else if c = CHR 0x09 then [BACKSLASH, CHR ''t'']
      else if c = CHR 0x0A then [BACKSLASH, CHR ''n'']
      else if c = CHR 0x0C then [BACKSLASH, CHR ''f'']
      else if c = CHR 0x0D then [BACKSLASH, CHR ''r'']
      else if c = DQUOTE then [BACKSLASH, DQUOTE]
      else if c = BACKSLASH then [BACKSLASH, BACKSLASH]
      else if (of_char c :: nat) < 32
        then BACKSLASH # ''u00'' @ [hexDigit (of_char c div 16), hexDigit (of_char c)]
      else [c])"

definition quoteJSONString :: "string \<Rightarrow> string" where
  "quoteJSONString s = DQUOTE # concat (map quoteJSONChar s) @ [DQUOTE]"

fun joinWith :: "string \<Rightarrow> string list \<Rightarrow> string" where
  "joinWith sep [] = []"
| "joinWith sep [x] = x"
| "joinWith sep (x # y # ys) = x @ sep @ joinWith sep (y # ys)"

definition JSON_stringify :: "string list \<Rightarrow> string" where
  "JSON_stringify xs = ''['' @ joinWith '','' (map quoteJSONString xs) @ '']''"

section \<open>The workflow steps\<close>

record PipelineData =
  fullProjectContent :: string
  files :: "ParsedFile list"
  documentationNotes :: string

fun stripJsonFences :: "string \<Rightarrow> string" where
  \<comment> \<open>\<open>rawText.replace(/```json\n|```/g, '')\<close>\<close>
  "stripJsonFences [] = []"
| "stripJsonFences (c # cs) =
     (if prefix ([BACKTICK, BACKTICK, BACKTICK] @ ''json'' @ [LF]) (c # cs)
        then stripJsonFences (drop 7 cs)
      else if prefix [BACKTICK, BACKTICK, BACKTICK] (c # cs)
        then stripJsonFences (drop 2 cs)
      else c # stripJsonFences cs)"

definition safeJsonParse :: "environment \<Rightarrow> string \<Rightarrow> json" where
  "safeJsonParse env text =
     (let rawText = trim text;
          jsonText = (if prefix ([BACKTICK, BACKTICK, BACKTICK] @ ''json'') rawText
                      then stripJsonFences rawText else rawText)
      in case JSON_parse env jsonText of
           Some v \<Rightarrow> v
         | None \<Rightarrow> JNull)"

definition wellFormedFile :: "json \<Rightarrow> (string \<times> string) option" where
  \<comment> \<open>\<open>file && typeof file.path === 'string' && typeof file.content === 'string'\<close>,
      giving the two strings when the test holds.\<close>
  "wellFormedFile file =
     (if truthy file then
        (case (getProp file ''path'', getProp file ''content'') of
           (Some (JString p), Some (JString c)) \<Rightarrow> Some (p, c)
         | _ \<Rightarrow> None)
      else None)"

fun addAdditionalFiles ::
  "ParsedFile list \<Rightarrow> string set \<Rightarrow> json list \<Rightarrow> ParsedFile list" where
  \<comment> \<open>The \<open>forEach\<close> over \<open>additionalFiles\<close>, with the array \<open>pipelineData.files\<close> and the
      set \<open>existingPaths\<close> it updates.\<close>
  "addAdditionalFiles fs existingPaths [] = fs"
| "addAdditionalFiles fs existingPaths (file # rest) =
     (case wellFormedFile file of
        Some (p, c) \<Rightarrow>
          if p \<notin> existingPaths
          then addAdditionalFiles (fs @ [\<lparr>path = p, content = c\<rparr>])
                 (insert p existingPaths) rest
          else addAdditionalFiles fs existingPaths rest
      | None \<Rightarrow> addAdditionalFiles fs existingPaths rest)"

definition additionalFilesOf :: "json \<Rightarrow> json" where
  \<comment> \<open>\<open>const { additionalFiles = [] } = aiResult || {}\<close>\<close>
  "additionalFilesOf aiResult =
     (case getProp (if truthy aiResult then aiResult else JObject []) ''additionalFiles'' of
        None \<Rightarrow> JArray []
      | Some v \<Rightarrow> v)"

definition findFilesPrompt :: "PipelineData \<Rightarrow> string \<Rightarrow> string" where
  \<comment> \<open>\<open>finalPrompt\<close> of \<open>findAdditionalFiles\<close>\<close>
  "findFilesPrompt pipelineData promptText =
     (let parsedFilePaths =
            (if length (files pipelineData) > 0
             then JSON_stringify (map path (files pipelineData)) else ''Nessuno'')
      in replace
           (replace promptText ''ORIGINAL_CONTENT_PLACEHOLDER''
              (fullProjectContent pipelineData))
           ''PARSED_FILES_PLACEHOLDER'' parsedFilePaths)"

definition findAdditionalFiles ::
  "environment \<Rightarrow> PipelineData \<Rightarrow> string \<Rightarrow> string \<Rightarrow> PipelineData" where
  "findAdditionalFiles env pipelineData promptText apiKeyOverride =
     (case getAiClient env apiKeyOverride of
        None \<Rightarrow> pipelineData
      | Some ai \<Rightarrow>
          (case ai (findFilesPrompt pipelineData promptText) (Some fileFinderSchema) of
             Rejects error \<Rightarrow> pipelineData
           | Responds text \<Rightarrow>
               (let aiResult = safeJsonParse env text;
                    additionalFiles = additionalFilesOf aiResult
                in case additionalFiles of
                     JArray items \<Rightarrow>
                       pipelineData\<lparr>files :=
                         addAdditionalFiles (files pipelineData)
                           (set (map path (files pipelineData))) items\<rparr>
                   | _ \<Rightarrow> pipelineData)))"

definition fallbackNote :: "thrown \<Rightarrow> string" where
  "fallbackNote error =
     ''Estrazione della documentazione AI fallita. Errore: '' @
       (case error of ErrorObj message \<Rightarrow> message | NonError s \<Rightarrow> s)"

definition extractDocumentationNotes ::
  "environment \<Rightarrow> PipelineData \<Rightarrow> string \<Rightarrow> string \<Rightarrow> PipelineData" where
  "extractDocumentationNotes env pipelineData promptText apiKeyOverride =
     (case getAiClient env apiKeyOverride of
        None \<Rightarrow> pipelineData
      | Some ai \<Rightarrow>
          (case ai (replace promptText ''ORIGINAL_CONTENT_PLACEHOLDER''
                      (fullProjectContent pipelineData))
                   (Some docExtractorSchema) of
             Responds text \<Rightarrow>
               (let aiResult = safeJsonParse env text in
                if truthy aiResult then
                  (case getProp aiResult ''documentationNotes'' of
                     Some (JString notes) \<Rightarrow> pipelineData\<lparr>documentationNotes := notes\<rparr>
                   | _ \<Rightarrow> pipelineData)
                else pipelineData)
           | Rejects error \<Rightarrow>
               pipelineData\<lparr>documentationNotes :=
                 (if documentationNotes pipelineData \<noteq> []
                  then documentationNotes pipelineData @ [LF] @ fallbackNote error
                  else fallbackNote error)\<rparr>))"

definition readmeSkipped :: string where
  "readmeSkipped =
     ''# Generazione README Saltata'' @ [LF, LF] @
     ''Impossibile generare il README perch'' @ [CHR 0xE9] @ '' non '' @ [CHR 0xE8] @
     '' stata configurata una chiave API. Aggiungine una nelle impostazioni.''"

definition contentForReadme :: "PipelineData \<Rightarrow> string" where
  "contentForReadme pipelineData =
     [LF] @ ''**Contenuto Originale del Progetto:**'' @ [LF] @
     fullProjectContent pipelineData @ [LF, LF] @ ''---'' @ [LF] @
     ''**Note di Documentazione Aggiuntive (Estratte dall'' @ [APOSTROPHE] @
     ''AI, dare priorit'' @ [CHR 0xE0] @ '' a queste):**'' @ [LF] @
     (if documentationNotes pipelineData \<noteq> [] then documentationNotes pipelineData
      else ''Nessuna nota di documentazione aggiuntiva '' @ [CHR 0xE8] @ '' stata estratta.'') @
     [LF] @ ''  ''"

definition readmeFailed :: "thrown \<Rightarrow> string" where
  "readmeFailed error =
     (let errorMessage =
            (case error of
               ErrorObj message \<Rightarrow> message
             | NonError s \<Rightarrow> ''Si '' @ [CHR 0xE8] @ '' verificato un errore API sconosciuto.'')
      in ''# Documentazione del Progetto'' @ [LF, LF] @
         ''**Attenzione: Impossibile generare automaticamente il README.md a causa di un errore.**'' @
         [LF, LF] @
         ''Questo '' @ [CHR 0xE8] @ '' un file segnaposto. Si prega di esaminare i file sorgente del progetto per comprenderne la struttura e lo scopo.'' @
         [LF, LF] @ ''**Dettagli dell'' @ [APOSTROPHE] @ ''Errore:**'' @ [LF] @
         [BACKTICK, BACKTICK, BACKTICK, LF] @ errorMessage @ [LF, BACKTICK, BACKTICK, BACKTICK])"

definition generateReadme ::
  "environment \<Rightarrow> PipelineData \<Rightarrow> string \<Rightarrow> string \<Rightarrow> string" where
  "generateReadme env pipelineData promptContent apiKeyOverride =
     (case getAiClient env apiKeyOverride of
        None \<Rightarrow> readmeSkipped
      | Some ai \<Rightarrow>
          (case ai (promptContent @ [LF] @ contentForReadme pipelineData) None of
             Responds text \<Rightarrow> trim text
           | Rejects error \<Rightarrow> readmeFailed error))"

section \<open>The orchestrator: \<open>handleProcessInput\<close>\<close>

datatype WorkflowStepType = FIND_FILES | EXTRACT_DOCS | GENERATE_README

record WorkflowStep =
  stepId :: string
  stepType :: WorkflowStepType
  stepName :: string
  prompt :: string
  enabled :: bool

definition toLowerChar :: "char \<Rightarrow> char" where
  \<comment> \<open>Lower-casing of one code unit below 256: the ASCII capitals and the Latin-1
      capitals (all of \<open>0xC0\<close> to \<open>0xDE\<close> but the multiplication sign).\<close>
  "toLowerChar c =
     (let n = (of_char c :: nat) in
      if (65 \<le> n \<and> n \<le> 90) \<or> (192 \<le> n \<and> n \<le> 222 \<and> n \<noteq> 215)
      then char_of (n + 32) else c)"

definition toLowerCase :: "string \<Rightarrow> string" where
  "toLowerCase s = map toLowerChar s"

definition isReadme :: "ParsedFile \<Rightarrow> bool" where
  \<comment> \<open>\<open>f => f.path.toLowerCase() === 'readme.md'\<close>\<close>
  "isReadme f = (toLowerCase (path f) = ''readme.md'')"

fun findIndex :: "('a \<Rightarrow> bool) \<Rightarrow> 'a list \<Rightarrow> nat option" where
  \<comment> \<open>\<open>Array.prototype.findIndex\<close>; \<open>None\<close> is the result \<open>-1\<close>.\<close>
  "findIndex P [] = None"
| "findIndex P (x # xs) = (if P x then Some 0 else map_option Suc (findIndex P xs))"

definition upsertReadme :: "ParsedFile list \<Rightarrow> string \<Rightarrow> ParsedFile list" where
  \<comment> \<open>What the \<open>GENERATE_README\<close> case does with \<open>readmeContent\<close>.\<close>
  "upsertReadme fs readmeContent =
     (case findIndex isReadme fs of
        Some readmeIndex \<Rightarrow> fs[readmeIndex := (fs ! readmeIndex)\<lparr>content := readmeContent\<rparr>]
      | None \<Rightarrow> \<lparr>path = ''README.md'', content = readmeContent\<rparr> # fs)"

definition runStep ::
  "environment \<Rightarrow> string \<Rightarrow> WorkflowStep \<Rightarrow> PipelineData \<Rightarrow> PipelineData" where
  \<comment> \<open>The \<open>switch\<close> on \<open>step.type\<close>.\<close>
  "runStep env apiKeyOverride step pipelineData =
     (case stepType step of
        FIND_FILES \<Rightarrow> findAdditionalFiles env pipelineData (prompt step) apiKeyOverride
      | EXTRACT_DOCS \<Rightarrow> extractDocumentationNotes env pipelineData (prompt step) apiKeyOverride
      | GENERATE_README \<Rightarrow>
          (let readmeContent = generateReadme env pipelineData (prompt step) apiKeyOverride
           in pipelineData\<lparr>files := upsertReadme (files pipelineData) readmeContent\<rparr>))"

fun runSteps ::
  "(nat \<Rightarrow> environment) \<Rightarrow> string \<Rightarrow> nat \<Rightarrow> WorkflowStep list \<Rightarrow> PipelineData
     \<Rightarrow> PipelineData" where
  \<comment> \<open>The loop over \<open>activeSteps\<close> from index \<open>i\<close> on. The surroundings may answer each
      step differently: \<open>world i\<close> is what they supply while step \<open>i\<close> runs.\<close>
  "runSteps world apiKeyOverride i [] pipelineData = pipelineData"
| "runSteps world apiKeyOverride i (step # rest) pipelineData =
     runSteps world apiKeyOverride (Suc i) rest
       (runStep (world i) apiKeyOverride step pipelineData)"

record ZipEntry =
  entryPath :: string
  dir :: bool
  asyncString :: "thrown + string"

record File =
  fileName :: string
  fileType :: string
  fileText :: "thrown + string"
  loadAsync :: "thrown + ZipEntry list"

text \<open>
  An uploaded file with what reading it gives: \<open>file.text()\<close>, and \<open>JSZip.loadAsync(file)\<close>
  as the entries of \<open>zip.files\<close> in the order the \<open>for ... in\<close> loop visits them, each with
  the result of \<open>async('string')\<close>. \<^const>\<open>Inl\<close> is a rejected promise.
\<close>

definition endsWith :: "string \<Rightarrow> string \<Rightarrow> bool" where
  "endsWith s suf = suffix suf s"

definition lastDotSegment :: "string \<Rightarrow> string" where
  \<comment> \<open>\<open>path.split('.').pop() || ''\<close>\<close>
  "lastDotSegment p = rev (takeWhile (\<lambda>c. c \<noteq> CHR ''.'') (rev p))"

fun serializeZip :: "ZipEntry list \<Rightarrow> thrown + string" where
  "serializeZip [] = Inr []"
| "serializeZip (e # es) =
     (if dir e then serializeZip es
      else
        (case asyncString e of
           Inl err \<Rightarrow> Inl err
         | Inr body \<Rightarrow>
             (case serializeZip es of
                Inl err \<Rightarrow> Inl err
              | Inr others \<Rightarrow>
                  Inr (''### '' @ [BACKTICK] @ entryPath e @ [BACKTICK, LF] @
                       [BACKTICK, BACKTICK, BACKTICK] @ lastDotSegment (entryPath e) @ [LF] @
                       body @ [LF, BACKTICK, BACKTICK, BACKTICK, LF] @ ''---'' @ [LF] @ others))))"

fun processInputFiles :: "File list \<Rightarrow> thrown + string" where
  "processInputFiles [] = Inr []"
| "processInputFiles (file # rest) =
     (case (if fileType file = ''application/zip'' \<or> endsWith (fileName file) ''.zip''
            then (case loadAsync file of
                    Inl err \<Rightarrow> Inl err
                  | Inr entries \<Rightarrow> serializeZip entries)
            else (case fileText file of
                    Inl err \<Rightarrow> Inl err
                  | Inr body \<Rightarrow> Inr (body @ [LF] @ ''---'' @ [LF]))) of
        Inl err \<Rightarrow> Inl err
      | Inr piece \<Rightarrow>
          (case processInputFiles rest of
             Inl err \<Rightarrow> Inl err
           | Inr others \<Rightarrow> Inr (piece @ others)))"

datatype input = TextInput string | FilesInput "File list"

definition emptyFilesMessage :: string where
  "emptyFilesMessage =
     ''Impossibile analizzare i file. Verifica il formato dell'' @ [APOSTROPHE] @ ''input.''"

definition emptyFilesError :: thrown where
  \<comment> \<open>\<open>new Error("Impossibile analizzare i file. Verifica il formato dell'input.")\<close>\<close>
  "emptyFilesError = ErrorObj emptyFilesMessage"

definition prepareInput :: "input \<Rightarrow> thrown + string" where
  \<comment> \<open>Step 1 of the \<open>try\<close> block: the text that becomes \<open>fullProjectContent\<close>.\<close>
  "prepareInput inp =
     (case inp of
        TextInput s \<Rightarrow> Inr s
      | FilesInput fs \<Rightarrow> processInputFiles fs)"

definition initialPipelineData :: "string \<Rightarrow> PipelineData" where
  "initialPipelineData full =
     \<lparr>fullProjectContent = full, files = parseWithRegex full, documentationNotes = []\<rparr>"

definition runPipeline ::
  "(nat \<Rightarrow> environment) \<Rightarrow> WorkflowStep list \<Rightarrow> string \<Rightarrow> input \<Rightarrow> thrown + PipelineData" where
  \<comment> \<open>The \<open>try\<close> block of \<open>handleProcessInput\<close> up to and with the check for an empty
      file list: \<^const>\<open>Inl\<close> is what it throws, \<^const>\<open>Inr\<close> the pipeline data it ends with.\<close>
  "runPipeline world workflowSteps apiKeyOverride inp =
     (case prepareInput inp of
        Inl err \<Rightarrow> Inl err
      | Inr full \<Rightarrow>
          (let pipelineData =
                 runSteps world apiKeyOverride 0 (filter enabled workflowSteps)
                   (initialPipelineData full)
           in if length (files pipelineData) = 0 then Inl emptyFilesError
              else Inr pipelineData))"

datatype appState =
    Editor "ParsedFile list" "string option"
  | InputWithError string

text \<open>
  Where \<open>handleProcessInput\<close> leaves the application: in the editor with \<open>parsedFiles\<close> and
  \<open>selectedFilePath\<close> set, or back at the input step with \<open>error\<close> set.
\<close>

definition unexpectedError :: string where
  "unexpectedError =
     ''Si '' @ [CHR 0xE8] @ '' verificato un errore imprevisto durante l'' @ [APOSTROPHE] @
     ''elaborazione.''"

definition handleProcessInput ::
  "(nat \<Rightarrow> environment) \<Rightarrow> WorkflowStep list \<Rightarrow> string \<Rightarrow> input \<Rightarrow> appState" where
  "handleProcessInput world workflowSteps apiKeyOverride inp =
     (case runPipeline world workflowSteps apiKeyOverride inp of
        Inr pipelineData \<Rightarrow>
          Editor (files pipelineData)
            (case files pipelineData of
               [] \<Rightarrow> None
             | f # _ \<Rightarrow> if path f \<noteq> [] then Some (path f) else None)
      | Inl (ErrorObj message) \<Rightarrow>
          InputWithError (if message \<noteq> [] then message else unexpectedError)
      | Inl (NonError s) \<Rightarrow> InputWithError unexpectedError)"

section \<open>Names for the parts of the prompt\<close>

definition ORIGINAL_CONTENT_PLACEHOLDER :: string where
  "ORIGINAL_CONTENT_PLACEHOLDER = ''ORIGINAL_CONTENT_PLACEHOLDER''"

definition PARSED_FILES_PLACEHOLDER :: string where
  "PARSED_FILES_PLACEHOLDER = ''PARSED_FILES_PLACEHOLDER''"

definition parsedFilePaths :: "PipelineData \<Rightarrow> string" where
  \<comment> \<open>the constant \<open>parsedFilePaths\<close> of \<open>findAdditionalFiles\<close>\<close>
  "parsedFilePaths pipelineData =
     (if length (files pipelineData) > 0
      then JSON_stringify (map path (files pipelineData)) else ''Nessuno'')"

section \<open>Sample surroundings and inputs for concrete runs\<close>

definition replyWith :: "aiResponse \<Rightarrow> string \<Rightarrow> GoogleGenAI" where
  \<comment> \<open>A service that gives the same outcome to every request.\<close>
  "replyWith r apiKey contents schema = r"

definition parseOnly :: "string \<Rightarrow> json \<Rightarrow> string \<Rightarrow> json option" where
  \<comment> \<open>\<open>JSON.parse\<close> restricted to one well-formed text; every other text is taken
      to be malformed.\<close>
  "parseOnly good v t = (if t = good then Some v else None)"

definition sampleEnv :: "string option \<Rightarrow> aiResponse \<Rightarrow> string \<Rightarrow> json \<Rightarrow> environment" where
  "sampleEnv k r good v =
     \<lparr>API_KEY = k, newGoogleGenAI = replyWith r, JSON_parse = parseOnly good v\<rparr>"

definition sampleData :: "ParsedFile list \<Rightarrow> string \<Rightarrow> PipelineData" where
  "sampleData fs notes =
     \<lparr>fullProjectContent = ''demo'', files = fs, documentationNotes = notes\<rparr>"

definition exampleInput :: string where
  "exampleInput =
     ''### `a.txt`\<newline>```\<newline>hello\<newline>```\<newline>---\<newline>### `b.txt`\<newline>```\<newline>world\<newline>```''"

definition twoReadmes :: string where
  "twoReadmes = ''# `README.md`\<newline>first\<newline>---\<newline># `readme.md`\<newline>second''"

definition sampleAnswer :: json where
  \<comment> \<open>An answer that repeats a known path, names a new path twice and holds an item
      whose content is not a string.\<close>
  "sampleAnswer =
     JObject [(''additionalFiles'',
       JArray [JObject [(''path'', JString ''a.txt''), (''content'', JString ''again'')],
               JObject [(''path'', JString ''b.txt''), (''content'', JString ''world'')],
               JObject [(''path'', JString ''b.txt''), (''content'', JString ''twice'')],
               JObject [(''path'', JString ''c.txt''), (''content'', JNumber 1)]])]"

definition jsonFile :: "string \<Rightarrow> string \<Rightarrow> string" where
  \<comment> \<open>The JSON text of an object with the properties \<open>path\<close>, a string, and
      \<open>content\<close>, given as JSON text.\<close>
  "jsonFile p c =
     ''{'' @ quoteJSONString ''path'' @ '':'' @ quoteJSONString p @ '','' @
     quoteJSONString ''content'' @ '':'' @ c @ ''}''"

definition sampleAnswerText :: string where
  \<comment> \<open>The JSON text that \<open>JSON.parse\<close> turns into \<^const>\<open>sampleAnswer\<close>.\<close>
  "sampleAnswerText =
     ''{'' @ quoteJSONString ''additionalFiles'' @ '':['' @
     jsonFile ''a.txt'' (quoteJSONString ''again'') @ '','' @
     jsonFile ''b.txt'' (quoteJSONString ''world'') @ '','' @
     jsonFile ''b.txt'' (quoteJSONString ''twice'') @ '','' @
     jsonFile ''c.txt'' ''1'' @ '']}''"

definition sampleManifest :: ParsedFile where
  \<comment> \<open>A manifest that names \<open>icons/icon1.png\<close> twice and \<open>icons/icon2.png\<close> once.\<close>
  "sampleManifest =
     \<lparr>path = ''manifest.json'',
      content = ''['' @ iconPrefix @ ''1'' @ iconSuffix @ '','' @ iconPrefix @ ''2'' @ iconSuffix
                @ '','' @ iconPrefix @ ''1'' @ iconSuffix @ '']''\<rparr>"

definition sampleTemplate :: string where
  "sampleTemplate =
     ''Text: '' @ ORIGINAL_CONTENT_PLACEHOLDER @ '' Files: '' @ PARSED_FILES_PLACEHOLDER @ ''.''"

definition dollarData :: PipelineData where
  "dollarData = \<lparr>fullProjectContent = ''cost $$5'', files = [], documentationNotes = []\<rparr>"

definition readmeStep :: WorkflowStep where
  "readmeStep =
     \<lparr>stepId = ''3'', stepType = GENERATE_README, stepName = ''Genera README.md'',
      prompt = ''Write a README.'', enabled = True\<rparr>"

definition offline :: "nat \<Rightarrow> environment" where
  \<comment> \<open>Surroundings without a credential, the same at every step.\<close>
  "offline i = sampleEnv None (Responds ''{}'') ''{}'' (JObject [])"

definition manifestHeader :: string where
  "manifestHeader = ''### `manifest.json`'' @ [LF]"

definition sharedQuoteContent :: string where
  \<comment> \<open>Two references in a row, the second opening with the quote that closes the first.\<close>
  "sharedQuoteContent = iconPrefix @ ''4'' @ iconSuffix @ ''icons/icon5.png'' @ [DQUOTE]"

definition bareWordContent :: string where
  \<comment> \<open>The string \<open>"a"\<close>, the bare word \<open>icons/icon1.png\<close>, then the string
      \<open>"icons/icon2.png"\<close>.\<close>
  "bareWordContent =
     [DQUOTE] @ ''a'' @ [DQUOTE] @ ''icons/icon1.png'' @ iconPrefix @ ''2'' @ iconSuffix"

definition dollarPatterns :: "string list" where
  \<comment> \<open>The sequences that \<open>replace\<close> reads as a template in a replacement text when
      the pattern is a string: \<open>$$\<close>, \<open>$&\<close>, \<open>$`\<close> and \<open>$'\<close>.\<close>
  "dollarPatterns = [''$$'', ''$&'', [CHR ''$'', BACKTICK], [CHR ''$'', APOSTROPHE]]"

definition priceData :: PipelineData where
  \<comment> \<open>A project content with dollar signs that start no template sequence.\<close>
  "priceData =
     \<lparr>fullProjectContent = ''price: $5 and ${HOME} and $x'',
      files = [\<lparr>path = ''a.txt'', content = ''hello''\<rparr>, \<lparr>path = ''b.txt'', content = ''world''\<rparr>],
      documentationNotes = []\<rparr>"

section \<open>Extract Documentation Notes\<close>

lemma getProp_falsy:
  "\<not> truthy v \<Longrightarrow> getProp v key = None"
  by (cases v) simp_all

text \<open>
  C10. Whatever the pipeline data, the prompt, the credential and the outcome of the
  service call, \<open>extractDocumentationNotes\<close> returns the data it was given with at most the
  field \<open>documentationNotes\<close> changed: \<open>fullProjectContent\<close> and \<open>files\<close> are the same.
\<close>

theorem extractDocumentationNotes_frame:
  "fullProjectContent (extractDocumentationNotes env pd promptText apiKeyOverride)
     = fullProjectContent pd
   \<and> files (extractDocumentationNotes env pd promptText apiKeyOverride) = files pd
   \<and> extractDocumentationNotes env pd promptText apiKeyOverride
     = pd\<lparr>documentationNotes :=
          documentationNotes (extractDocumentationNotes env pd promptText apiKeyOverride)\<rparr>"
  by (simp add: extractDocumentationNotes_def Let_def
      split: option.splits aiResponse.splits json.splits)

lemma fallbackNote_nonempty: "fallbackNote e \<noteq> []"
  by (simp add: fallbackNote_def)

text \<open>
  C1, as the code has it. When the service call throws, the step keeps the notes it was
  given and appends, on a new line, the diagnostic that starts with
  \<open>Estrazione della documentazione AI fallita. Errore:\<close> (the diagnostic alone when there
  were no notes): the notes change and the earlier notes are a prefix of the new ones. When
  the call returns a text that is not valid JSON, or whose parsed value has no string field
  \<open>documentationNotes\<close>, the step returns the pipeline data unchanged.
\<close>

theorem extractDocumentationNotes_failures:
  assumes "getAiClient env apiKeyOverride = Some ai"
  shows "(ai (replace promptText ''ORIGINAL_CONTENT_PLACEHOLDER'' (fullProjectContent pd))
             (Some docExtractorSchema) = Rejects e
          \<longrightarrow> documentationNotes (extractDocumentationNotes env pd promptText apiKeyOverride)
                = (if documentationNotes pd \<noteq> []
                   then documentationNotes pd @ [LF] @ fallbackNote e else fallbackNote e)
            \<and> prefix (documentationNotes pd)
                 (documentationNotes (extractDocumentationNotes env pd promptText apiKeyOverride))
            \<and> documentationNotes (extractDocumentationNotes env pd promptText apiKeyOverride)
                \<noteq> documentationNotes pd)
       \<and> (ai (replace promptText ''ORIGINAL_CONTENT_PLACEHOLDER'' (fullProjectContent pd))
             (Some docExtractorSchema) = Responds text
          \<and> (\<forall>s. getProp (safeJsonParse env text) ''documentationNotes'' \<noteq> Some (JString s))
          \<longrightarrow> extractDocumentationNotes env pd promptText apiKeyOverride = pd)"
proof (intro conjI impI)
  assume r: "ai (replace promptText ''ORIGINAL_CONTENT_PLACEHOLDER'' (fullProjectContent pd))
             (Some docExtractorSchema) = Rejects e"
  show n: "documentationNotes (extractDocumentationNotes env pd promptText apiKeyOverride)
        = (if documentationNotes pd \<noteq> []
           then documentationNotes pd @ [LF] @ fallbackNote e else fallbackNote e)"
    using assms r by (simp add: extractDocumentationNotes_def)
  show "prefix (documentationNotes pd)
          (documentationNotes (extractDocumentationNotes env pd promptText apiKeyOverride))"
    unfolding n by simp
  show "documentationNotes (extractDocumentationNotes env pd promptText apiKeyOverride)
          \<noteq> documentationNotes pd"
    unfolding n using fallbackNote_nonempty [of e] by auto
next
  assume a: "ai (replace promptText ''ORIGINAL_CONTENT_PLACEHOLDER'' (fullProjectContent pd))
             (Some docExtractorSchema) = Responds text
          \<and> (\<forall>s. getProp (safeJsonParse env text) ''documentationNotes'' \<noteq> Some (JString s))"
  then show "extractDocumentationNotes env pd promptText apiKeyOverride = pd"
    using assms
    by (simp add: extractDocumentationNotes_def Let_def split: option.splits json.splits)
qed

text \<open>
  A run of each kind: the service is offline, and the service answers \<open>{}\<close>.
\<close>

theorem extractDocumentationNotes_failures_witness:
  "documentationNotes
     (extractDocumentationNotes (sampleEnv (Some ''key'') (Rejects (ErrorObj ''offline'')) ''{}'' (JObject []))
        (sampleData [] ''prior notes'') ''Read ORIGINAL_CONTENT_PLACEHOLDER'' [])
     = ''prior notes'' @ [LF] @ ''Estrazione della documentazione AI fallita. Errore: offline''
   \<and> extractDocumentationNotes (sampleEnv (Some ''key'') (Responds ''{}'') ''{}'' (JObject []))
        (sampleData [] ''prior notes'') ''Read ORIGINAL_CONTENT_PLACEHOLDER'' []
     = sampleData [] ''prior notes''"
proof -
  let ?p = "''Read ORIGINAL_CONTENT_PLACEHOLDER''"
  let ?pd = "sampleData [] ''prior notes''"
  let ?e1 = "sampleEnv (Some ''key'') (Rejects (ErrorObj ''offline'')) ''{}'' (JObject [])"
  let ?e2 = "sampleEnv (Some ''key'') (Responds ''{}'') ''{}'' (JObject [])"
  have c1: "getAiClient ?e1 [] = Some (replyWith (Rejects (ErrorObj ''offline'')) ''key'')"
    by (simp add: getAiClient_def sampleEnv_def)
  have c2: "getAiClient ?e2 [] = Some (replyWith (Responds ''{}'') ''key'')"
    by (simp add: getAiClient_def sampleEnv_def)
  have p2: "safeJsonParse ?e2 ''{}'' = JObject []"
    by (simp add: safeJsonParse_def sampleEnv_def parseOnly_def trim_def isWhiteSpace_def
        BACKTICK_def)
  have a: "documentationNotes (extractDocumentationNotes ?e1 ?pd ?p [])
       = ''prior notes'' @ [LF] @ ''Estrazione della documentazione AI fallita. Errore: offline''"
    using extractDocumentationNotes_failures [OF c1, of ?p ?pd "ErrorObj ''offline''" "[]"]
    by (simp add: replyWith_def sampleData_def fallbackNote_def)
  have b: "extractDocumentationNotes ?e2 ?pd ?p [] = ?pd"
    using extractDocumentationNotes_failures [OF c2, of ?p ?pd "ErrorObj []" "''{}''"] p2
    by (simp add: replyWith_def)
  show ?thesis using a b by simp
qed

text \<open>
  The statement that every failure leaves a visible diagnostic does not hold: with notes
  \<open>prior notes\<close>, an answer that is not JSON and an answer \<open>{}\<close> without the field both end
  with the notes exactly as they were.
\<close>

theorem extractDocumentationNotes_silent_counterexample:
  "documentationNotes
     (extractDocumentationNotes (sampleEnv (Some ''key'') (Responds ''not json'') ''{}'' (JObject []))
        (sampleData [] ''prior notes'') ''Read ORIGINAL_CONTENT_PLACEHOLDER'' [])
     = ''prior notes''
   \<and> documentationNotes
     (extractDocumentationNotes (sampleEnv (Some ''key'') (Responds ''{}'') ''{}'' (JObject []))
        (sampleData [] ''prior notes'') ''Read ORIGINAL_CONTENT_PLACEHOLDER'' [])
     = ''prior notes''"
  by (simp add: extractDocumentationNotes_def getAiClient_def sampleEnv_def replyWith_def
      safeJsonParse_def parseOnly_def trim_def isWhiteSpace_def BACKTICK_def sampleData_def)

section \<open>Steps without a credential\<close>

text \<open>
  C5. With no credential (an empty override and an absent or empty \<open>API_KEY\<close>), for every
  pipeline data and prompt: \<open>findAdditionalFiles\<close> and \<open>extractDocumentationNotes\<close> return
  the data they were given, and \<open>generateReadme\<close> returns the fixed, non-empty markdown text
  that says no API key was configured. The three functions are total and have no error
  result, as the source returns before its \<open>try\<close> block: nothing is thrown.
\<close>

theorem no_credential_degrades:
  assumes "apiKeyOverride = []" and "API_KEY env = None \<or> API_KEY env = Some []"
  shows "findAdditionalFiles env pd promptText apiKeyOverride = pd
       \<and> extractDocumentationNotes env pd promptText apiKeyOverride = pd
       \<and> generateReadme env pd promptText apiKeyOverride = readmeSkipped
       \<and> readmeSkipped =
           ''# Generazione README Saltata'' @ [LF, LF] @
           ''Impossibile generare il README perch'' @ [CHR 0xE9] @ '' non '' @ [CHR 0xE8] @
           '' stata configurata una chiave API. Aggiungine una nelle impostazioni.''
       \<and> readmeSkipped \<noteq> []"
proof -
  have "getAiClient env apiKeyOverride = None"
    using assms by (auto simp: getAiClient_def)
  then show ?thesis
    by (simp add: findAdditionalFiles_def extractDocumentationNotes_def generateReadme_def
        readmeSkipped_def)
qed

theorem no_credential_degrades_witness:
  "findAdditionalFiles (sampleEnv None (Responds ''{}'') ''{}'' (JObject []))
      (sampleData [\<lparr>path = ''a.txt'', content = ''hello''\<rparr>] ''notes'') ''prompt'' []
     = sampleData [\<lparr>path = ''a.txt'', content = ''hello''\<rparr>] ''notes''
   \<and> extractDocumentationNotes (sampleEnv None (Responds ''{}'') ''{}'' (JObject []))
      (sampleData [\<lparr>path = ''a.txt'', content = ''hello''\<rparr>] ''notes'') ''prompt'' []
     = sampleData [\<lparr>path = ''a.txt'', content = ''hello''\<rparr>] ''notes''
   \<and> generateReadme (sampleEnv None (Responds ''{}'') ''{}'' (JObject []))
      (sampleData [\<lparr>path = ''a.txt'', content = ''hello''\<rparr>] ''notes'') ''prompt'' []
     = readmeSkipped"
  using no_credential_degrades [of "[]" "sampleEnv None (Responds ''{}'') ''{}'' (JObject [])"
      "sampleData [\<lparr>path = ''a.txt'', content = ''hello''\<rparr>] ''notes''" "''prompt''"]
  by (simp add: sampleEnv_def)

section \<open>The orchestrator\<close>

lemma runPipeline_nonempty:
  "runPipeline world steps key inp = Inr pd \<Longrightarrow> files pd \<noteq> []"
  by (auto simp: runPipeline_def Let_def split: sum.splits if_splits)

text \<open>
  C4. For every input and every list of steps: \<open>handleProcessInput\<close> never ends in the
  editor with an empty file list, and the \<open>try\<close> block never ends normally with one. When
  the input could be read and the file list is empty after the extractor and the enabled
  steps have run, the run throws the error \<open>Impossibile analizzare i file. Verifica il
  formato dell'input.\<close> and the application returns to the input step showing that message.
\<close>

theorem empty_files_is_failure:
  "handleProcessInput world steps key inp \<noteq> Editor [] sel
   \<and> (\<forall>pd. runPipeline world steps key inp = Inr pd \<longrightarrow> files pd \<noteq> [])
   \<and> (prepareInput inp = Inr full
        \<and> files (runSteps world key 0 (filter enabled steps) (initialPipelineData full)) = []
      \<longrightarrow> runPipeline world steps key inp = Inl emptyFilesError
          \<and> handleProcessInput world steps key inp = InputWithError emptyFilesMessage
          \<and> emptyFilesMessage \<noteq> [])"
proof (intro conjI allI impI)
  show "handleProcessInput world steps key inp \<noteq> Editor [] sel"
    using runPipeline_nonempty [of world steps key inp]
    by (auto simp: handleProcessInput_def split: sum.splits thrown.splits)
next
  fix pd assume "runPipeline world steps key inp = Inr pd"
  then show "files pd \<noteq> []" by (rule runPipeline_nonempty)
next
  assume a: "prepareInput inp = Inr full
        \<and> files (runSteps world key 0 (filter enabled steps) (initialPipelineData full)) = []"
  then show r: "runPipeline world steps key inp = Inl emptyFilesError"
    by (simp add: runPipeline_def)
  show "handleProcessInput world steps key inp = InputWithError emptyFilesMessage"
    by (simp add: handleProcessInput_def r emptyFilesError_def emptyFilesMessage_def)
  show "emptyFilesMessage \<noteq> []"
    by (simp add: emptyFilesMessage_def)
qed

lemma parse_prose: "parseWithRegex ''plain prose, no files'' = []"
  by code_simp

theorem empty_files_is_failure_witness:
  "handleProcessInput (\<lambda>i. sampleEnv None (Responds ''{}'') ''{}'' (JObject []))
     [\<lparr>stepId = ''1'', stepType = EXTRACT_DOCS, stepName = ''docs'', prompt = ''p'',
       enabled = True\<rparr>] [] (TextInput ''plain prose, no files'')
   = InputWithError emptyFilesMessage"
proof -
  let ?w = "\<lambda>i::nat. sampleEnv None (Responds ''{}'') ''{}'' (JObject [])"
  let ?steps = "[\<lparr>stepId = ''1'', stepType = EXTRACT_DOCS, stepName = ''docs'', prompt = ''p'',
       enabled = True\<rparr>]"
  have p: "prepareInput (TextInput ''plain prose, no files'') = Inr ''plain prose, no files''"
    by (simp add: prepareInput_def)
  have f: "files (runSteps ?w [] 0 (filter enabled ?steps)
             (initialPipelineData ''plain prose, no files'')) = []"
    by (simp add: initialPipelineData_def parse_prose runStep_def extractDocumentationNotes_def
        getAiClient_def sampleEnv_def)
  show ?thesis
    using empty_files_is_failure [of ?w ?steps "[]" "TextInput ''plain prose, no files''"
        None "''plain prose, no files''"] p f
    by simp
qed

lemma parse_exampleInput:
  "parseWithRegex exampleInput
     = [\<lparr>path = ''a.txt'', content = ''hello''\<rparr>, \<lparr>path = ''b.txt'', content = ''world''\<rparr>]"
  unfolding exampleInput_def by code_simp

text \<open>
  C9. On the input text \<open>exampleInput\<close> (two sections, \<open>a.txt\<close> holding \<open>hello\<close> and
  \<open>b.txt\<close> holding \<open>world\<close>, separated by a \<open>---\<close> line), with no step enabled, the run
  ends normally with exactly the files \<open>a.txt\<close>/\<open>hello\<close> and \<open>b.txt\<close>/\<open>world\<close> in that
  order and with empty documentation notes, and the editor opens on those files.
\<close>

theorem end_to_end_example:
  assumes "filter enabled steps = []"
  shows "runPipeline world steps key (TextInput exampleInput)
           = Inr \<lparr>fullProjectContent = exampleInput,
                  files = [\<lparr>path = ''a.txt'', content = ''hello''\<rparr>,
                           \<lparr>path = ''b.txt'', content = ''world''\<rparr>],
                  documentationNotes = []\<rparr>
       \<and> handleProcessInput world steps key (TextInput exampleInput)
           = Editor [\<lparr>path = ''a.txt'', content = ''hello''\<rparr>,
                     \<lparr>path = ''b.txt'', content = ''world''\<rparr>] (Some ''a.txt'')"
proof -
  have r: "runPipeline world steps key (TextInput exampleInput)
           = Inr \<lparr>fullProjectContent = exampleInput,
                  files = [\<lparr>path = ''a.txt'', content = ''hello''\<rparr>,
                           \<lparr>path = ''b.txt'', content = ''world''\<rparr>],
                  documentationNotes = []\<rparr>"
    using assms
    by (simp add: runPipeline_def prepareInput_def initialPipelineData_def parse_exampleInput)
  show ?thesis
    by (simp add: handleProcessInput_def r)
qed

theorem end_to_end_example_witness:
  "handleProcessInput (\<lambda>i. sampleEnv None (Responds ''{}'') ''{}'' (JObject []))
     [\<lparr>stepId = ''1'', stepType = FIND_FILES, stepName = ''find'', prompt = ''p'',
       enabled = False\<rparr>] [] (TextInput exampleInput)
   = Editor [\<lparr>path = ''a.txt'', content = ''hello''\<rparr>,
             \<lparr>path = ''b.txt'', content = ''world''\<rparr>] (Some ''a.txt'')"
  using end_to_end_example [of "[\<lparr>stepId = ''1'', stepType = FIND_FILES, stepName = ''find'',
       prompt = ''p'', enabled = False\<rparr>]"
      "\<lambda>i. sampleEnv None (Responds ''{}'') ''{}'' (JObject [])" "[]"]
  by simp

section \<open>The README upsert\<close>

lemma findIndex_Some:
  "findIndex P xs = Some i \<Longrightarrow> i < length xs \<and> P (xs ! i) \<and> (\<forall>j<i. \<not> P (xs ! j))"
proof (induction xs arbitrary: i)
  case Nil
  then show ?case by simp
next
  case (Cons x xs)
  show ?case
  proof (cases "P x")
    case True
    with Cons.prems show ?thesis by simp
  next
    case False
    with Cons.prems obtain k where k: "findIndex P xs = Some k" "i = Suc k"
      by auto
    from Cons.IH [OF k(1)] False k(2) show ?thesis
      by (auto simp: less_Suc_eq_0_disj)
  qed
qed

lemma findIndex_None:
  "findIndex P xs = None \<longleftrightarrow> (\<forall>x\<in>set xs. \<not> P x)"
  by (induction xs) auto

lemma isReadme_path:
  "isReadme (f\<lparr>content := c\<rparr>) = isReadme f"
  by (simp add: isReadme_def)

lemma length_filter_cong_map:
  "map P xs = map P ys \<Longrightarrow> length (filter P xs) = length (filter P ys)"
proof (induction xs arbitrary: ys)
  case Nil
  then show ?case by simp
next
  case (Cons x xs)
  then obtain y ys' where y: "ys = y # ys'" by (cases ys) auto
  with Cons.prems have "P x = P y" "map P xs = map P ys'" by auto
  with Cons.IH [of ys'] y show ?case by simp
qed

lemma filter_isReadme_update:
  assumes "i < length fs"
  shows "length (filter isReadme (fs[i := (fs ! i)\<lparr>content := c\<rparr>]))
           = length (filter isReadme fs)"
proof -
  have "map isReadme (fs[i := (fs ! i)\<lparr>content := c\<rparr>]) = map isReadme fs"
    using assms by (simp add: map_update isReadme_path list_update_same_conv)
  then show ?thesis by (rule length_filter_cong_map)
qed

lemma upsertReadme_cases:
  "((\<exists>f\<in>set fs. isReadme f) \<longrightarrow>
      (\<exists>i<length fs. isReadme (fs ! i) \<and> (\<forall>j<i. \<not> isReadme (fs ! j))
          \<and> upsertReadme fs c = fs[i := \<lparr>path = path (fs ! i), content = c\<rparr>])
      \<and> map path (upsertReadme fs c) = map path fs
      \<and> length (filter isReadme (upsertReadme fs c)) = length (filter isReadme fs))
   \<and> (\<not> (\<exists>f\<in>set fs. isReadme f) \<longrightarrow>
      upsertReadme fs c = \<lparr>path = ''README.md'', content = c\<rparr> # fs
      \<and> length (filter isReadme (upsertReadme fs c)) = 1)"
proof (intro conjI impI)
  assume e: "\<exists>f\<in>set fs. isReadme f"
  then obtain i where i: "findIndex isReadme fs = Some i"
    using findIndex_None [of isReadme fs] by (cases "findIndex isReadme fs") auto
  note s = findIndex_Some [OF i]
  have u: "upsertReadme fs c = fs[i := (fs ! i)\<lparr>content := c\<rparr>]"
    by (simp add: upsertReadme_def i)
  have r: "(fs ! i)\<lparr>content := c\<rparr> = \<lparr>path = path (fs ! i), content = c\<rparr>"
    by simp
  show "\<exists>i<length fs. isReadme (fs ! i) \<and> (\<forall>j<i. \<not> isReadme (fs ! j))
          \<and> upsertReadme fs c = fs[i := \<lparr>path = path (fs ! i), content = c\<rparr>]"
    unfolding u r using s by (intro exI [of _ i]) simp
  show "map path (upsertReadme fs c) = map path fs"
    using s by (simp add: u map_update list_update_same_conv)
  show "length (filter isReadme (upsertReadme fs c)) = length (filter isReadme fs)"
    using s by (simp only: u filter_isReadme_update)
next
  assume n: "\<not> (\<exists>f\<in>set fs. isReadme f)"
  then have i: "findIndex isReadme fs = None"
    using findIndex_None [of isReadme fs] by simp
  show u: "upsertReadme fs c = \<lparr>path = ''README.md'', content = c\<rparr> # fs"
    by (simp add: upsertReadme_def i)
  have "isReadme \<lparr>path = ''README.md'', content = c\<rparr>"
    unfolding isReadme_def by (simp, code_simp)
  moreover have "filter isReadme fs = []"
    using n by (simp add: filter_empty_conv)
  ultimately show "length (filter isReadme (upsertReadme fs c)) = 1"
    by (simp add: u)
qed

lemma isReadme_samples:
  "isReadme \<lparr>path = ''readme.md'', content = x\<rparr>"
  "isReadme \<lparr>path = ''README.md'', content = x\<rparr>"
  "\<not> isReadme \<lparr>path = ''a.txt'', content = x\<rparr>"
  unfolding isReadme_def by (simp, code_simp)+

text \<open>
  C3, as the code has it. When the step is a \<open>GENERATE_README\<close> step, the orchestrator
  calls \<open>generateReadme\<close> and puts the text \<open>c\<close> it returns into the file list \<open>fs\<close>,
  changing nothing else of the pipeline data. When some file's path equals \<open>README.md\<close> up
  to case, the first such file gets the content \<open>c\<close>, at its position and under its own
  path; no entry is added and no other entry changes, so the list has as many README entries
  as it had (exactly one when it had exactly one). Otherwise a new file \<open>README.md\<close> with
  content \<open>c\<close> is put at the front, and it is then the only README entry.
\<close>

theorem runStep_readme_upsert:
  assumes "stepType step = GENERATE_README"
    and "c = generateReadme env pd (prompt step) key"
    and "fs = files pd"
    and "fs' = files (runStep env key step pd)"
  shows "((\<exists>f\<in>set fs. isReadme f) \<longrightarrow>
            (\<exists>i<length fs. isReadme (fs ! i) \<and> (\<forall>j<i. \<not> isReadme (fs ! j))
                \<and> fs' = fs[i := \<lparr>path = path (fs ! i), content = c\<rparr>])
            \<and> map path fs' = map path fs
            \<and> length (filter isReadme fs') = length (filter isReadme fs))
       \<and> (\<not> (\<exists>f\<in>set fs. isReadme f) \<longrightarrow>
            fs' = \<lparr>path = ''README.md'', content = c\<rparr> # fs
            \<and> length (filter isReadme fs') = 1)
       \<and> runStep env key step pd = pd\<lparr>files := fs'\<rparr>"
proof -
  have r: "runStep env key step pd = pd\<lparr>files := upsertReadme fs c\<rparr>"
    using assms(1,2,3) by (simp add: runStep_def)
  then have f: "fs' = upsertReadme fs c"
    using assms(4) by simp
  show ?thesis
    unfolding f using upsertReadme_cases [of fs c] r by blast
qed

lemma generateReadme_offline:
  "generateReadme (offline i) pd p [] = readmeSkipped"
  by (simp add: generateReadme_def getAiClient_def offline_def sampleEnv_def)

text \<open>
  Two runs of the step without a credential, so that the generated text is the fixed
  fallback: one on a list that holds \<open>readme.md\<close>, one on a list without a README.
\<close>

theorem runStep_readme_upsert_witness:
  "files (runStep (offline 0) [] readmeStep
       (sampleData [\<lparr>path = ''a.txt'', content = ''hello''\<rparr>,
                    \<lparr>path = ''readme.md'', content = ''old''\<rparr>] []))
     = [\<lparr>path = ''a.txt'', content = ''hello''\<rparr>,
        \<lparr>path = ''readme.md'', content = readmeSkipped\<rparr>]
   \<and> files (runStep (offline 0) [] readmeStep
       (sampleData [\<lparr>path = ''a.txt'', content = ''hello''\<rparr>] []))
     = [\<lparr>path = ''README.md'', content = readmeSkipped\<rparr>,
        \<lparr>path = ''a.txt'', content = ''hello''\<rparr>]"
proof -
  let ?a = "\<lparr>path = ''a.txt'', content = ''hello''\<rparr>"
  let ?r = "\<lparr>path = ''readme.md'', content = ''old''\<rparr>"
  have t: "stepType readmeStep = GENERATE_README"
    by (simp add: readmeStep_def)
  have c: "readmeSkipped = generateReadme (offline 0) pd (prompt readmeStep) []" for pd
    by (simp add: generateReadme_offline)
  have e: "\<exists>f\<in>set [?a, ?r]. isReadme f"
    by (simp add: isReadme_samples)
  have n: "\<not> (\<exists>f\<in>set [?a]. isReadme f)"
    by (simp add: isReadme_samples)
  have f2: "[?a, ?r] = files (sampleData [?a, ?r] [])" and f1: "[?a] = files (sampleData [?a] [])"
    by (simp_all add: sampleData_def)
  from runStep_readme_upsert [OF t c f2 refl] e
  have "\<exists>i<length [?a, ?r]. isReadme ([?a, ?r] ! i) \<and> (\<forall>j<i. \<not> isReadme ([?a, ?r] ! j))
      \<and> files (runStep (offline 0) [] readmeStep (sampleData [?a, ?r] []))
          = [?a, ?r][i := \<lparr>path = path ([?a, ?r] ! i), content = readmeSkipped\<rparr>]"
    by blast
  then obtain i where i: "i < length [?a, ?r]" "isReadme ([?a, ?r] ! i)"
      "files (runStep (offline 0) [] readmeStep (sampleData [?a, ?r] []))
         = [?a, ?r][i := \<lparr>path = path ([?a, ?r] ! i), content = readmeSkipped\<rparr>]"
    by blast
  have "i = 1"
  proof (cases i)
    case 0
    with i(2) show ?thesis by (simp add: isReadme_samples)
  next
    case (Suc k)
    with i(1) show ?thesis by simp
  qed
  then have a: "files (runStep (offline 0) [] readmeStep (sampleData [?a, ?r] []))
      = [?a, \<lparr>path = ''readme.md'', content = readmeSkipped\<rparr>]"
    using i(3) by simp
  have b: "files (runStep (offline 0) [] readmeStep (sampleData [?a] []))
      = [\<lparr>path = ''README.md'', content = readmeSkipped\<rparr>, ?a]"
    using runStep_readme_upsert [OF t c f1 refl] n by blast
  show ?thesis using a b by blast
qed

text \<open>
  The upsert does not always leave exactly one README entry. The extractor keeps both
  sections of \<open>twoReadmes\<close>, whose paths differ in case only; a run with the README step
  enabled replaces the content of the first and ends in the editor with two README entries.
\<close>

theorem readme_two_entries_counterexample:
  "handleProcessInput offline [readmeStep] [] (TextInput twoReadmes)
     = Editor [\<lparr>path = ''README.md'', content = readmeSkipped\<rparr>,
               \<lparr>path = ''readme.md'', content = ''second''\<rparr>] (Some ''README.md'')
   \<and> length (filter isReadme
        [\<lparr>path = ''README.md'', content = readmeSkipped\<rparr>,
         \<lparr>path = ''readme.md'', content = ''second''\<rparr>]) = 2"
proof -
  have p: "parseWithRegex twoReadmes
     = [\<lparr>path = ''README.md'', content = ''first''\<rparr>, \<lparr>path = ''readme.md'', content = ''second''\<rparr>]"
    unfolding twoReadmes_def by code_simp
  have e: "enabled readmeStep"
    by (simp add: readmeStep_def)
  have s: "runStep (offline 0) [] readmeStep (initialPipelineData twoReadmes)
     = \<lparr>fullProjectContent = twoReadmes,
        files = [\<lparr>path = ''README.md'', content = readmeSkipped\<rparr>,
                 \<lparr>path = ''readme.md'', content = ''second''\<rparr>],
        documentationNotes = []\<rparr>"
    by (simp add: runStep_def readmeStep_def generateReadme_offline initialPipelineData_def p
        upsertReadme_def isReadme_samples)
  have r: "runPipeline offline [readmeStep] [] (TextInput twoReadmes)
     = Inr \<lparr>fullProjectContent = twoReadmes,
        files = [\<lparr>path = ''README.md'', content = readmeSkipped\<rparr>,
                 \<lparr>path = ''readme.md'', content = ''second''\<rparr>],
        documentationNotes = []\<rparr>"
    by (simp add: runPipeline_def prepareInput_def e s)
  have h: "handleProcessInput offline [readmeStep] [] (TextInput twoReadmes)
     = Editor [\<lparr>path = ''README.md'', content = readmeSkipped\<rparr>,
               \<lparr>path = ''readme.md'', content = ''second''\<rparr>] (Some ''README.md'')"
    by (simp add: handleProcessInput_def r)
  have l: "length (filter isReadme
        [\<lparr>path = ''README.md'', content = readmeSkipped\<rparr>,
         \<lparr>path = ''readme.md'', content = ''second''\<rparr>]) = 2"
    by (simp add: isReadme_samples)
  show ?thesis using h l by blast
qed

section \<open>Find Additional Files\<close>

lemma addAdditionalFiles_added:
  "\<exists>added. addAdditionalFiles fs ex items = fs @ added
      \<and> distinct (map path added)
      \<and> set (map path added) \<inter> ex = {}
      \<and> (\<forall>f\<in>set added. \<exists>item\<in>set items. wellFormedFile item = Some (path f, content f))"
proof (induction items arbitrary: fs ex)
  case Nil
  show ?case by simp
next
  case (Cons cand rest)
  show ?case
  proof (cases "wellFormedFile cand")
    case None
    with Cons.IH [of fs ex] show ?thesis by auto
  next
    case (Some pc)
    obtain p c where pc: "pc = (p, c)" by (cases pc)
    show ?thesis
    proof (cases "p \<in> ex")
      case True
      with Some pc Cons.IH [of fs ex] show ?thesis by auto
    next
      case False
      from Cons.IH [of "fs @ [\<lparr>path = p, content = c\<rparr>]" "insert p ex"]
      obtain added where a:
        "addAdditionalFiles (fs @ [\<lparr>path = p, content = c\<rparr>]) (insert p ex) rest
           = (fs @ [\<lparr>path = p, content = c\<rparr>]) @ added"
        "distinct (map path added)"
        "set (map path added) \<inter> insert p ex = {}"
        "\<forall>f\<in>set added. \<exists>item\<in>set rest. wellFormedFile item = Some (path f, content f)"
        by blast
      let ?new = "\<lparr>path = p, content = c\<rparr> # added"
      have 1: "addAdditionalFiles fs ex (cand # rest) = fs @ ?new"
        using Some pc False a(1) by simp
      have 2: "distinct (map path ?new)"
        using a(2,3) by auto
      have 3: "set (map path ?new) \<inter> ex = {}"
        using a(3) False by auto
      have 4: "\<forall>f\<in>set ?new. \<exists>item\<in>set (cand # rest).
                 wellFormedFile item = Some (path f, content f)"
        using a(4) Some pc by auto
      from 1 2 3 4 show ?thesis by blast
    qed
  qed
qed

text \<open>
  C2. For every pipeline data, prompt, credential and answer of the service,
  \<open>findAdditionalFiles\<close> returns the data it was given with some entries appended to
  \<open>files\<close>. The appended entries have pairwise different paths, none of them a path of the
  original \<open>files\<close>, and each is the \<open>path\<close> and \<open>content\<close> of an item of the answer's
  \<open>additionalFiles\<close> array whose two fields are strings. Hence, if no two entries of \<open>files\<close>
  had the same path before the step, none have afterwards.
\<close>

theorem findAdditionalFiles_unique_paths:
  "\<exists>added.
      findAdditionalFiles env pd promptText key = pd\<lparr>files := files pd @ added\<rparr>
    \<and> distinct (map path added)
    \<and> set (map path added) \<inter> set (map path (files pd)) = {}
    \<and> (\<forall>f\<in>set added. \<exists>ai text items.
          getAiClient env key = Some ai
        \<and> ai (findFilesPrompt pd promptText) (Some fileFinderSchema) = Responds text
        \<and> additionalFilesOf (safeJsonParse env text) = JArray items
        \<and> (\<exists>item\<in>set items. wellFormedFile item = Some (path f, content f)))
    \<and> (distinct (map path (files pd))
        \<longrightarrow> distinct (map path (files (findAdditionalFiles env pd promptText key))))"
proof -
  have unchanged: ?thesis if "findAdditionalFiles env pd promptText key = pd"
    using that by (intro exI [of _ "[]"]) simp
  show ?thesis
  proof (cases "getAiClient env key")
    case None
    then show ?thesis by (intro unchanged) (simp add: findAdditionalFiles_def)
  next
    case (Some ai)
    show ?thesis
    proof (cases "ai (findFilesPrompt pd promptText) (Some fileFinderSchema)")
      case (Rejects e)
      with Some show ?thesis by (intro unchanged) (simp add: findAdditionalFiles_def)
    next
      case (Responds t)
      show ?thesis
      proof (cases "\<exists>items. additionalFilesOf (safeJsonParse env t) = JArray items")
        case False
        with Some Responds show ?thesis
          by (intro unchanged)
            (auto simp: findAdditionalFiles_def Let_def split: json.splits)
      next
        case True
        then obtain items where items: "additionalFilesOf (safeJsonParse env t) = JArray items"
          by blast
        from addAdditionalFiles_added [of "files pd" "set (map path (files pd))" items]
        obtain added where a:
          "addAdditionalFiles (files pd) (set (map path (files pd))) items = files pd @ added"
          "distinct (map path added)"
          "set (map path added) \<inter> set (map path (files pd)) = {}"
          "\<forall>f\<in>set added. \<exists>item\<in>set items. wellFormedFile item = Some (path f, content f)"
          by blast
        have r: "findAdditionalFiles env pd promptText key = pd\<lparr>files := files pd @ added\<rparr>"
          using Some Responds items a(1) by (simp add: findAdditionalFiles_def)
        have d: "distinct (map path (files pd)) \<longrightarrow>
                 distinct (map path (files (findAdditionalFiles env pd promptText key)))"
          using a(2,3) by (simp add: r) blast
        have o: "\<forall>f\<in>set added. \<exists>ai txt items.
            getAiClient env key = Some ai
          \<and> ai (findFilesPrompt pd promptText) (Some fileFinderSchema) = Responds txt
          \<and> additionalFilesOf (safeJsonParse env txt) = JArray items
          \<and> (\<exists>item\<in>set items. wellFormedFile item = Some (path f, content f))"
          using Some Responds items a(4) by blast
        from r a(2,3) o d show ?thesis by blast
      qed
    qed
  qed
qed

theorem findAdditionalFiles_unique_paths_witness:
  "distinct (map path (files
     (findAdditionalFiles (sampleEnv (Some ''key'') (Responds sampleAnswerText) sampleAnswerText sampleAnswer)
        (sampleData [\<lparr>path = ''a.txt'', content = ''hello''\<rparr>] []) ''prompt'' [])))
   \<and> files
     (findAdditionalFiles (sampleEnv (Some ''key'') (Responds sampleAnswerText) sampleAnswerText sampleAnswer)
        (sampleData [\<lparr>path = ''a.txt'', content = ''hello''\<rparr>] []) ''prompt'' [])
     = [\<lparr>path = ''a.txt'', content = ''hello''\<rparr>, \<lparr>path = ''b.txt'', content = ''world''\<rparr>]"
proof -
  let ?env = "sampleEnv (Some ''key'') (Responds sampleAnswerText) sampleAnswerText sampleAnswer"
  let ?pd = "sampleData [\<lparr>path = ''a.txt'', content = ''hello''\<rparr>] []"
  have d: "distinct (map path (files ?pd))"
    by (simp add: sampleData_def)
  have a: "distinct (map path (files (findAdditionalFiles ?env ?pd ''prompt'' [])))"
    using findAdditionalFiles_unique_paths [of ?env ?pd "''prompt''" "[]"] d by blast
  have p: "safeJsonParse ?env sampleAnswerText = sampleAnswer"
    by code_simp
  have c: "getAiClient ?env [] = Some (replyWith (Responds sampleAnswerText) ''key'')"
    by (simp add: getAiClient_def sampleEnv_def)
  have i: "additionalFilesOf sampleAnswer =
     JArray [JObject [(''path'', JString ''a.txt''), (''content'', JString ''again'')],
             JObject [(''path'', JString ''b.txt''), (''content'', JString ''world'')],
             JObject [(''path'', JString ''b.txt''), (''content'', JString ''twice'')],
             JObject [(''path'', JString ''c.txt''), (''content'', JNumber 1)]]"
    by (simp add: additionalFilesOf_def sampleAnswer_def)
  have m: "addAdditionalFiles [\<lparr>path = ''a.txt'', content = ''hello''\<rparr>] {''a.txt''}
       [JObject [(''path'', JString ''a.txt''), (''content'', JString ''again'')],
        JObject [(''path'', JString ''b.txt''), (''content'', JString ''world'')],
        JObject [(''path'', JString ''b.txt''), (''content'', JString ''twice'')],
        JObject [(''path'', JString ''c.txt''), (''content'', JNumber 1)]]
     = [\<lparr>path = ''a.txt'', content = ''hello''\<rparr>, \<lparr>path = ''b.txt'', content = ''world''\<rparr>]"
    by (simp add: wellFormedFile_def)
  have b: "files (findAdditionalFiles ?env ?pd ''prompt'' [])
     = [\<lparr>path = ''a.txt'', content = ''hello''\<rparr>, \<lparr>path = ''b.txt'', content = ''world''\<rparr>]"
    by (simp add: findAdditionalFiles_def c replyWith_def p i sampleData_def m
        del: addAdditionalFiles.simps)
  show ?thesis using a b by blast
qed

section \<open>Splitting the text into sections\<close>

lemma prefix_sectionDelimiter:
  "prefix sectionDelimiter s \<longleftrightarrow> take 5 s = sectionDelimiter"
proof
  assume "prefix sectionDelimiter s"
  then obtain r where "s = sectionDelimiter @ r" by (auto simp: prefix_def)
  then show "take 5 s = sectionDelimiter" by (simp add: sectionDelimiter_def)
next
  assume "take 5 s = sectionDelimiter"
  then have "s = sectionDelimiter @ drop 5 s" by (metis append_take_drop_id)
  then show "prefix sectionDelimiter s" by (metis prefixI)
qed

lemma splitSections_at_delimiter:
  "splitSections (sectionDelimiter @ b) = [] # splitSections b"
  by (simp add: sectionDelimiter_def)

lemma splitSections_nonempty: "splitSections t \<noteq> []"
  by (induction t rule: splitSections.induct) (auto split: list.splits)

lemma splitSections_no_delimiter:
  "\<not> sublist sectionDelimiter t \<Longrightarrow> splitSections t = [t]"
proof (induction t)
  case Nil
  show ?case by simp
next
  case (Cons c cs)
  from Cons.prems have np: "\<not> prefix sectionDelimiter (c # cs)"
    and ns: "\<not> sublist sectionDelimiter cs"
    by (auto simp: sublist_Cons_right)
  from Cons.IH [OF ns] np show ?case by simp
qed

lemma take_append_le:
  "n \<le> length xs \<Longrightarrow> take n (xs @ ys) = take n xs"
  by simp

lemma splitSections_first_delimiter:
  "\<not> sublist sectionDelimiter (a @ butlast sectionDelimiter) \<Longrightarrow>
   splitSections (a @ sectionDelimiter @ b) = a # splitSections b"
proof (induction a)
  case Nil
  show ?case by (simp add: splitSections_at_delimiter)
next
  case (Cons x a)
  from Cons.prems have np': "\<not> prefix sectionDelimiter ((x # a) @ butlast sectionDelimiter)"
    and ns: "\<not> sublist sectionDelimiter (a @ butlast sectionDelimiter)"
    by (auto simp: sublist_Cons_right)
  have l: "5 \<le> length ((x # a) @ butlast sectionDelimiter)"
    by (simp add: sectionDelimiter_def)
  have e: "(x # a) @ sectionDelimiter @ b = ((x # a) @ butlast sectionDelimiter) @ ([LF] @ b)"
    by (simp add: sectionDelimiter_def)
  have "take 5 ((x # a) @ sectionDelimiter @ b) = take 5 ((x # a) @ butlast sectionDelimiter)"
    unfolding e using l by (rule take_append_le)
  with np' have np: "\<not> prefix sectionDelimiter (x # a @ sectionDelimiter @ b)"
    by (simp add: prefix_sectionDelimiter)
  from Cons.IH [OF ns] np show ?case by simp
qed

lemma joinWith_Cons:
  "ss \<noteq> [] \<Longrightarrow> joinWith sep (s # ss) = s @ sep @ joinWith sep ss"
  by (cases ss) simp_all

lemma joinWith_Cons_head:
  "joinWith sep ((c # s) # ss) = c # joinWith sep (s # ss)"
  by (cases ss) simp_all

lemma joinWith_splitSections:
  "joinWith sectionDelimiter (splitSections t) = t"
proof (induction t rule: splitSections.induct)
  case 1
  show ?case by simp
next
  case (2 c cs)
  show ?case
  proof (cases "prefix sectionDelimiter (c # cs)")
    case True
    then have e: "c # cs = sectionDelimiter @ drop 4 cs"
      by (auto simp: prefix_def sectionDelimiter_def)
    from True 2(1) have ih: "joinWith sectionDelimiter (splitSections (drop 4 cs)) = drop 4 cs"
      by simp
    from True have "splitSections (c # cs) = [] # splitSections (drop 4 cs)"
      by simp
    then have "joinWith sectionDelimiter (splitSections (c # cs))
        = sectionDelimiter @ joinWith sectionDelimiter (splitSections (drop 4 cs))"
      by (simp add: joinWith_Cons splitSections_nonempty)
    with ih e show ?thesis
      by simp
  next
    case False
    obtain s ss where s: "splitSections cs = s # ss"
      using splitSections_nonempty [of cs] by (cases "splitSections cs") auto
    from False 2(2) s have "joinWith sectionDelimiter (s # ss) = cs" by simp
    with False s show ?thesis
      by (simp add: joinWith_Cons_head)
  qed
qed

lemma prefix_joinWith: "prefix s (joinWith sep (s # ss))"
  by (cases ss) simp_all

lemma splitSections_sections_free:
  "\<forall>s\<in>set (splitSections t). \<not> sublist sectionDelimiter s"
proof (induction t rule: splitSections.induct)
  case 1
  show ?case by (simp add: sectionDelimiter_def)
next
  case (2 c cs)
  show ?case
  proof (cases "prefix sectionDelimiter (c # cs)")
    case True
    with 2(1) show ?thesis by (simp add: sectionDelimiter_def)
  next
    case False
    obtain s ss where s: "splitSections cs = s # ss"
      using splitSections_nonempty [of cs] by (cases "splitSections cs") auto
    from False 2(2) s have ih: "\<not> sublist sectionDelimiter s"
      "\<forall>u\<in>set ss. \<not> sublist sectionDelimiter u"
      by simp_all
    have "prefix s cs"
      using prefix_joinWith [of s sectionDelimiter ss] joinWith_splitSections [of cs] s
      by simp
    then have "prefix (c # s) (c # cs)" by simp
    with False have "\<not> prefix sectionDelimiter (c # s)"
      using prefix_order.trans by blast
    with ih(1) have "\<not> sublist sectionDelimiter (c # s)"
      by (simp add: sublist_Cons_right)
    with False s ih(2) show ?thesis by simp
  qed
qed

text \<open>
  C6, as the code has it. The extractor splits the text at the occurrences of the five
  characters newline, hyphen, hyphen, hyphen, newline, taken from left to right without
  overlap: a text without that sequence is one section; the text before the first
  occurrence is the first section and the text after it is split in the same way. The
  sections joined by that sequence give the text back, and no section contains it. A
  \<open>---\<close> line is therefore a delimiter only when a newline precedes it and a newline follows
  it, and the newline that ends one delimiter does not begin the next.
\<close>

theorem splitSections_spec:
  "(\<not> sublist sectionDelimiter t \<longrightarrow> splitSections t = [t])
   \<and> (\<not> sublist sectionDelimiter (a @ butlast sectionDelimiter)
        \<longrightarrow> splitSections (a @ sectionDelimiter @ b) = a # splitSections b)
   \<and> joinWith sectionDelimiter (splitSections t) = t
   \<and> (\<forall>s\<in>set (splitSections t). \<not> sublist sectionDelimiter s)"
  using splitSections_no_delimiter [of t] splitSections_first_delimiter [of a b]
    joinWith_splitSections [of t] splitSections_sections_free [of t]
  by blast

theorem splitSections_spec_witness:
  "splitSections (''one'' @ sectionDelimiter @ ''two'') = [''one'', ''two'']"
proof -
  have n1: "\<not> sublist sectionDelimiter ''two''"
    by (simp add: sectionDelimiter_def LF_def sublist_Cons_right)
  have n2: "\<not> sublist sectionDelimiter (''one'' @ butlast sectionDelimiter)"
    by (simp add: sectionDelimiter_def LF_def sublist_Cons_right)
  have "splitSections ''two'' = [''two'']"
    using splitSections_spec [of "''two''"] n1 by blast
  moreover have "splitSections (''one'' @ sectionDelimiter @ ''two'') = ''one'' # splitSections ''two''"
    using splitSections_spec [of _ "''one''" "''two''"] n2 by blast
  ultimately show ?thesis by simp
qed

text \<open>
  A \<open>---\<close> line at the very start or at the very end of the text does not split it, nor
  does the second of two \<open>---\<close> lines in a row. The extractor then finds no file in a text
  that starts with a \<open>---\<close> line before its first header, and takes a closing \<open>---\<close> line
  into the content of the last file.
\<close>

theorem splitSections_edge_counterexample:
  "splitSections (''---'' @ [LF] @ ''### `a.txt`'' @ [LF] @ ''hello'')
     = [''---'' @ [LF] @ ''### `a.txt`'' @ [LF] @ ''hello'']
   \<and> parseWithRegex (''---'' @ [LF] @ ''### `a.txt`'' @ [LF] @ ''hello'') = []
   \<and> splitSections (''### `a.txt`'' @ [LF] @ ''hello'' @ [LF] @ ''---'')
     = [''### `a.txt`'' @ [LF] @ ''hello'' @ [LF] @ ''---'']
   \<and> parseWithRegex (''### `a.txt`'' @ [LF] @ ''hello'' @ [LF] @ ''---'')
     = [\<lparr>path = ''a.txt'', content = ''hello'' @ [LF] @ ''---''\<rparr>]
   \<and> splitSections (''x'' @ [LF] @ ''---'' @ [LF] @ ''---'' @ [LF] @ ''y'')
     = [''x'', ''---'' @ [LF] @ ''y'']"
  by code_simp

section \<open>Icons named by the manifest\<close>

lemma digit_not_quote: "isDigit d \<Longrightarrow> d \<noteq> DQUOTE"
  by (auto simp: isDigit_def DQUOTE_def)

lemma takeWhile_digits:
  "\<forall>d\<in>set ds. isDigit d \<Longrightarrow> takeWhile isDigit (ds @ iconSuffix @ r) = ds"
  by (simp add: iconSuffix_def isDigit_def)

lemma dropWhile_digits:
  "\<forall>d\<in>set ds. isDigit d \<Longrightarrow> dropWhile isDigit (ds @ iconSuffix @ r) = iconSuffix @ r"
  by (simp add: iconSuffix_def isDigit_def)

lemma iconAt_literal:
  assumes "ds \<noteq> []" and "\<forall>d\<in>set ds. isDigit d"
  shows "iconAt (iconPrefix @ ds @ iconSuffix @ r)
           = Some (''icons/icon'' @ ds @ ''.png'', 11 + length ds + 5)"
proof -
  have d: "drop 11 (iconPrefix @ ds @ iconSuffix @ r) = ds @ iconSuffix @ r"
    by (simp add: iconPrefix_def)
  have t: "takeWhile isDigit (ds @ iconSuffix @ r) = ds"
    using assms(2) by (rule takeWhile_digits)
  have w: "dropWhile isDigit (ds @ iconSuffix @ r) = iconSuffix @ r"
    using assms(2) by (rule dropWhile_digits)
  have pre: "prefix iconPrefix (iconPrefix @ ds @ iconSuffix @ r)"
    by simp
  show ?thesis
    unfolding iconAt_def d t w
    using assms(1) pre by (simp add: Let_def)
qed

lemma iconAt_Some:
  assumes "iconAt s = Some (p, n)"
  shows "\<exists>ds r. ds \<noteq> [] \<and> (\<forall>d\<in>set ds. isDigit d) \<and> s = iconPrefix @ ds @ iconSuffix @ r
           \<and> p = ''icons/icon'' @ ds @ ''.png'' \<and> n = 11 + length ds + 5"
proof -
  let ?ds = "takeWhile isDigit (drop 11 s)"
  from assms have pre: "prefix iconPrefix s"
    by (auto simp: iconAt_def split: if_splits)
  with assms have ne: "?ds \<noteq> []" and suf: "prefix iconSuffix (dropWhile isDigit (drop 11 s))"
    and p: "p = ''icons/icon'' @ ?ds @ ''.png''" and n: "n = 11 + length ?ds + 5"
    by (auto simp: iconAt_def Let_def split: if_splits)
  from pre obtain s1 where s1: "s = iconPrefix @ s1" by (auto simp: prefix_def)
  then have d: "drop 11 s = s1" by (simp add: iconPrefix_def)
  from suf obtain r where r: "dropWhile isDigit s1 = iconSuffix @ r"
    by (auto simp: prefix_def d)
  have "s1 = ?ds @ dropWhile isDigit s1"
    by (simp add: d)
  with r s1 have "s = iconPrefix @ ?ds @ iconSuffix @ r" by simp
  moreover have "\<forall>c\<in>set ?ds. isDigit c"
    by (auto dest: set_takeWhileD)
  ultimately show ?thesis using ne p n by blast
qed

lemma sublist_of_drop: "sublist x (drop k ys) \<Longrightarrow> sublist x ys"
proof -
  assume "sublist x (drop k ys)"
  then obtain ps ss where "drop k ys = ps @ x @ ss" by (auto simp: sublist_def)
  then have "ys = (take k ys @ ps) @ x @ ss"
    by (metis append_take_drop_id append_assoc)
  then show ?thesis unfolding sublist_def by blast
qed

lemma iconPaths_sound:
  "\<forall>p\<in>set (iconPaths s). \<exists>ds. ds \<noteq> [] \<and> (\<forall>d\<in>set ds. isDigit d)
      \<and> p = ''icons/icon'' @ ds @ ''.png'' \<and> sublist (iconPrefix @ ds @ iconSuffix) s"
proof (induction s rule: iconPaths.induct)
  case 1
  show ?case by simp
next
  case (2 c cs)
  show ?case
  proof (cases "iconAt (c # cs)")
    case None
    have "\<exists>ds. ds \<noteq> [] \<and> (\<forall>d\<in>set ds. isDigit d)
        \<and> q = ''icons/icon'' @ ds @ ''.png'' \<and> sublist (iconPrefix @ ds @ iconSuffix) (c # cs)"
      if "q \<in> set (iconPaths cs)" for q
    proof -
      from 2(1) [OF None] that obtain ds' where d': "ds' \<noteq> []" "\<forall>d\<in>set ds'. isDigit d"
        "q = ''icons/icon'' @ ds' @ ''.png''" "sublist (iconPrefix @ ds' @ iconSuffix) cs"
        by blast
      from d'(4) have "sublist (iconPrefix @ ds' @ iconSuffix) (c # cs)"
        by (simp add: sublist_Cons_right)
      with d' show ?thesis by blast
    qed
    moreover have "iconPaths (c # cs) = iconPaths cs"
      using None by simp
    ultimately show ?thesis by simp
  next
    case (Some pn)
    obtain p n where pn: "pn = (p, n)" by (cases pn)
    from iconAt_Some [OF Some [unfolded pn]]
    obtain ds r where ds: "ds \<noteq> []" "\<forall>d\<in>set ds. isDigit d"
      "c # cs = iconPrefix @ ds @ iconSuffix @ r" "p = ''icons/icon'' @ ds @ ''.png''"
      by blast
    have "sublist (iconPrefix @ ds @ iconSuffix) (c # cs)"
      unfolding ds(3) sublist_def by (intro exI [of _ "[]"] exI [of _ r]) simp
    with ds have hd: "\<exists>ds. ds \<noteq> [] \<and> (\<forall>d\<in>set ds. isDigit d)
      \<and> p = ''icons/icon'' @ ds @ ''.png'' \<and> sublist (iconPrefix @ ds @ iconSuffix) (c # cs)"
      by blast
    have tl: "\<forall>q\<in>set (iconPaths (drop (n - 1) cs)). \<exists>ds. ds \<noteq> [] \<and> (\<forall>d\<in>set ds. isDigit d)
      \<and> q = ''icons/icon'' @ ds @ ''.png'' \<and> sublist (iconPrefix @ ds @ iconSuffix) (c # cs)"
    proof
      fix q assume "q \<in> set (iconPaths (drop (n - 1) cs))"
      with 2(2) [OF Some pn [symmetric]] obtain ds' where d': "ds' \<noteq> []" "\<forall>d\<in>set ds'. isDigit d"
        "q = ''icons/icon'' @ ds' @ ''.png''"
        "sublist (iconPrefix @ ds' @ iconSuffix) (drop (n - 1) cs)"
        by blast
      from d'(4) have "sublist (iconPrefix @ ds' @ iconSuffix) cs"
        by (rule sublist_of_drop)
      then have "sublist (iconPrefix @ ds' @ iconSuffix) (c # cs)"
        by (simp add: sublist_Cons_right)
      with d' show "\<exists>ds. ds \<noteq> [] \<and> (\<forall>d\<in>set ds. isDigit d)
        \<and> q = ''icons/icon'' @ ds @ ''.png'' \<and> sublist (iconPrefix @ ds @ iconSuffix) (c # cs)"
        by blast
    qed
    have "iconPaths (c # cs) = p # iconPaths (drop (n - 1) cs)"
      using Some pn by simp
    with hd tl show ?thesis by simp
  qed
qed

lemma append_eq_shorter:
  "xs @ r = ys @ zs \<Longrightarrow> length ys < length xs \<Longrightarrow>
   \<exists>us. xs = ys @ us \<and> us @ r = zs \<and> us \<noteq> []"
  by (auto simp: append_eq_append_conv2)

lemma quote_split:
  "DQUOTE \<notin> set body \<Longrightarrow> body @ [DQUOTE] = pre @ DQUOTE # w \<Longrightarrow> pre = body \<and> w = []"
proof (induction body arbitrary: pre)
  case Nil
  then show ?case by (cases pre) auto
next
  case (Cons b bs)
  show ?case
  proof (cases pre)
    case Nil
    with Cons.prems show ?thesis by auto
  next
    case (Cons y ys)
    with Cons.prems have "DQUOTE \<notin> set bs" "bs @ [DQUOTE] = ys @ DQUOTE # w" "y = b"
      by auto
    with Cons.IH [of ys] Cons show ?thesis by simp
  qed
qed

lemma iconBody_no_quote:
  "\<forall>d\<in>set ds. isDigit d \<Longrightarrow> DQUOTE \<notin> set (''icons/icon'' @ ds @ ''.png'')"
  by (auto simp: DQUOTE_def dest: digit_not_quote [unfolded DQUOTE_def])

lemma iconPaths_complete:
  assumes "ds \<noteq> []" and "\<forall>d\<in>set ds. isDigit d"
  shows "\<not> (\<exists>u ds'. ds' \<noteq> [] \<and> (\<forall>d\<in>set ds'. isDigit d)
             \<and> pre = u @ iconPrefix @ ds' @ ''.png'') \<Longrightarrow>
         s = pre @ iconPrefix @ ds @ iconSuffix @ post \<Longrightarrow>
         ''icons/icon'' @ ds @ ''.png'' \<in> set (iconPaths s)"
proof (induction s arbitrary: pre rule: iconPaths.induct)
  case 1
  then show ?case by (simp add: iconPrefix_def)
next
  case (2 c cs)
  note closed = "2.prems"(1) and eq = "2.prems"(2)
  show ?case
  proof (cases pre)
    case Nil
    with eq have "iconAt (c # cs) = Some (''icons/icon'' @ ds @ ''.png'', 11 + length ds + 5)"
      using iconAt_literal [OF assms, of post] by simp
    then show ?thesis by simp
  next
    case (Cons x pre')
    with eq have cs: "cs = pre' @ iconPrefix @ ds @ iconSuffix @ post" and x: "x = c"
      by simp_all
    have closed': "\<not> (\<exists>u ds'. ds' \<noteq> [] \<and> (\<forall>d\<in>set ds'. isDigit d)
             \<and> pre' = u @ iconPrefix @ ds' @ ''.png'')"
    proof
      assume "\<exists>u ds'. ds' \<noteq> [] \<and> (\<forall>d\<in>set ds'. isDigit d)
             \<and> pre' = u @ iconPrefix @ ds' @ ''.png''"
      then obtain u ds' where "ds' \<noteq> []" "\<forall>d\<in>set ds'. isDigit d"
        "pre' = u @ iconPrefix @ ds' @ ''.png''" by blast
      then have "ds' \<noteq> [] \<and> (\<forall>d\<in>set ds'. isDigit d)
          \<and> pre = (x # u) @ iconPrefix @ ds' @ ''.png''"
        using Cons by simp
      with closed show False by blast
    qed
    show ?thesis
    proof (cases "iconAt (c # cs)")
      case None
      from "2.IH"(1) [OF None closed' cs] None show ?thesis by simp
    next
      case (Some pn)
      obtain p n where pn: "pn = (p, n)" by (cases pn)
      from iconAt_Some [OF Some [unfolded pn]]
      obtain ds' r where d': "ds' \<noteq> []" "\<forall>d\<in>set ds'. isDigit d"
        "c # cs = iconPrefix @ ds' @ iconSuffix @ r" "n = 11 + length ds' + 5"
        by blast
      let ?body = "''icons/icon'' @ ds' @ ''.png''"
      have m: "c # cs = (DQUOTE # ?body @ [DQUOTE]) @ r"
        using d'(3) by (simp add: iconPrefix_def iconSuffix_def)
      have lenM: "length (DQUOTE # ?body @ [DQUOTE]) = n"
        using d'(4) by simp
      have le: "n \<le> length pre"
      proof (rule ccontr)
        assume "\<not> n \<le> length pre"
        then have lt: "length pre < length (DQUOTE # ?body @ [DQUOTE])"
          using lenM by simp
        from eq m have e: "(DQUOTE # ?body @ [DQUOTE]) @ r
            = pre @ DQUOTE # (''icons/icon'' @ ds @ iconSuffix @ post)"
          by (simp add: iconPrefix_def)
        from append_eq_shorter [OF e lt]
        obtain us where us: "DQUOTE # ?body @ [DQUOTE] = pre @ us"
          "us @ r = DQUOTE # (''icons/icon'' @ ds @ iconSuffix @ post)" "us \<noteq> []"
          by blast
        from us(2,3) obtain w where w: "us = DQUOTE # w"
          by (cases us) auto
        from us(1) w Cons have b: "?body @ [DQUOTE] = pre' @ DQUOTE # w"
          by simp
        from quote_split [OF iconBody_no_quote [OF d'(2)] b] have "pre' = ?body" by simp
        with us(1) w Cons have "pre = [] @ iconPrefix @ ds' @ ''.png''"
          by (simp add: iconPrefix_def)
        with d'(1,2) closed show False by blast
      qed
      with Cons have le': "n - 1 \<le> length pre'" by simp
      have dr: "drop (n - 1) cs = drop (n - 1) pre' @ iconPrefix @ ds @ iconSuffix @ post"
        using le' by (simp add: cs)
      have closed'': "\<not> (\<exists>u ds'. ds' \<noteq> [] \<and> (\<forall>d\<in>set ds'. isDigit d)
             \<and> drop (n - 1) pre' = u @ iconPrefix @ ds' @ ''.png'')"
      proof
        assume "\<exists>u ds'. ds' \<noteq> [] \<and> (\<forall>d\<in>set ds'. isDigit d)
             \<and> drop (n - 1) pre' = u @ iconPrefix @ ds' @ ''.png''"
        then obtain u k where k: "k \<noteq> []" "\<forall>d\<in>set k. isDigit d"
          "drop (n - 1) pre' = u @ iconPrefix @ k @ ''.png''" by blast
        have "pre' = take (n - 1) pre' @ drop (n - 1) pre'" by simp
        with k(3) have "pre' = (take (n - 1) pre' @ u) @ iconPrefix @ k @ ''.png''"
          by simp
        with k(1,2) closed' show False by blast
      qed
      from "2.IH"(2) [OF Some pn [symmetric] closed'' dr]
      have "''icons/icon'' @ ds @ ''.png'' \<in> set (iconPaths (drop (n - 1) cs))" .
      then show ?thesis using Some pn by simp
    qed
  qed
qed

lemma newSet_distinct:
  "distinct acc \<Longrightarrow> distinct (newSet acc xs) \<and> set (newSet acc xs) = set acc \<union> set xs"
  by (induction xs arbitrary: acc) auto

lemma pushMissingIcons_append:
  "distinct ps \<Longrightarrow>
   pushMissingIcons fs ps
     = fs @ map (\<lambda>p. \<lparr>path = p, content = []\<rparr>) (filter (\<lambda>p. p \<notin> set (map path fs)) ps)"
proof (induction ps arbitrary: fs)
  case Nil
  show ?case by simp
next
  case (Cons p ps)
  then have d: "distinct ps" and n: "p \<notin> set ps" by simp_all
  show ?case
  proof (cases "p \<in> set (map path fs)")
    case True
    with Cons.IH [OF d, of fs] show ?thesis by simp
  next
    case False
    have "filter (\<lambda>q. q \<notin> set (map path (fs @ [\<lparr>path = p, content = []\<rparr>]))) ps
        = filter (\<lambda>q. q \<notin> set (map path fs)) ps"
      using n by (intro filter_cong) auto
    with Cons.IH [OF d, of "fs @ [\<lparr>path = p, content = []\<rparr>]"] False show ?thesis
      by simp
  qed
qed

lemma find_Some_first:
  "find P xs = Some x \<Longrightarrow> x \<in> set xs \<and> P x"
  by (induction xs) (auto split: if_splits)

lemma addManifestIcons_cases:
  assumes "find (\<lambda>f. path f = ''manifest.json'') fs = Some m"
  shows "m \<in> set fs \<and> path m = ''manifest.json''
    \<and> addManifestIcons fs
        = fs @ map (\<lambda>p. \<lparr>path = p, content = []\<rparr>)
                 (filter (\<lambda>p. p \<notin> set (map path fs)) (newSet [] (iconPaths (content m))))
    \<and> distinct (filter (\<lambda>p. p \<notin> set (map path fs)) (newSet [] (iconPaths (content m))))
    \<and> set (filter (\<lambda>p. p \<notin> set (map path fs)) (newSet [] (iconPaths (content m))))
        = set (iconPaths (content m)) - set (map path fs)
    \<and> (\<forall>p\<in>set (iconPaths (content m)).
          \<exists>ds. ds \<noteq> [] \<and> (\<forall>d\<in>set ds. isDigit d) \<and> p = ''icons/icon'' @ ds @ ''.png''
             \<and> sublist (iconPrefix @ ds @ iconSuffix) (content m))
    \<and> (\<forall>pre ds post.
          content m = pre @ iconPrefix @ ds @ iconSuffix @ post
          \<and> ds \<noteq> [] \<and> (\<forall>d\<in>set ds. isDigit d)
          \<and> \<not> (\<exists>u ds'. ds' \<noteq> [] \<and> (\<forall>d\<in>set ds'. isDigit d)
                  \<and> pre = u @ iconPrefix @ ds' @ ''.png'')
          \<longrightarrow> ''icons/icon'' @ ds @ ''.png'' \<in> set (iconPaths (content m)))"
proof -
  let ?u = "newSet [] (iconPaths (content m))"
  have u: "distinct ?u" "set ?u = set (iconPaths (content m))"
    using newSet_distinct [of "[]" "iconPaths (content m)"] by simp_all
  have 0: "m \<in> set fs" and 1: "path m = ''manifest.json''"
    using find_Some_first [OF assms] by simp_all
  have 2: "addManifestIcons fs
        = fs @ map (\<lambda>p. \<lparr>path = p, content = []\<rparr>) (filter (\<lambda>p. p \<notin> set (map path fs)) ?u)"
    using pushMissingIcons_append [OF u(1), of fs] by (simp add: addManifestIcons_def assms)
  have 3: "distinct (filter (\<lambda>p. p \<notin> set (map path fs)) ?u)"
    using u(1) by simp
  have 4: "set (filter (\<lambda>p. p \<notin> set (map path fs)) ?u)
        = set (iconPaths (content m)) - set (map path fs)"
    using u(2) by auto
  have 5: "\<forall>p\<in>set (iconPaths (content m)).
          \<exists>ds. ds \<noteq> [] \<and> (\<forall>d\<in>set ds. isDigit d) \<and> p = ''icons/icon'' @ ds @ ''.png''
             \<and> sublist (iconPrefix @ ds @ iconSuffix) (content m)"
    by (rule iconPaths_sound)
  have 6: "\<forall>pre ds post.
          content m = pre @ iconPrefix @ ds @ iconSuffix @ post
          \<and> ds \<noteq> [] \<and> (\<forall>d\<in>set ds. isDigit d)
          \<and> \<not> (\<exists>u ds'. ds' \<noteq> [] \<and> (\<forall>d\<in>set ds'. isDigit d)
                  \<and> pre = u @ iconPrefix @ ds' @ ''.png'')
          \<longrightarrow> ''icons/icon'' @ ds @ ''.png'' \<in> set (iconPaths (content m))"
    using iconPaths_complete by blast
  show ?thesis
    by (rule conjI [OF 0 conjI [OF 1 conjI [OF 2 conjI [OF 3 conjI [OF 4 conjI [OF 5 6]]]]]])
qed

lemma iconPaths_sampleManifest:
  "iconPaths (content sampleManifest) = [''icons/icon1.png'', ''icons/icon2.png'', ''icons/icon1.png'']"
  by code_simp

lemma prefix_of_longer:
  "xs @ r = ys @ zs \<Longrightarrow> length xs \<le> length ys \<Longrightarrow> prefix xs ys"
  by (auto simp: append_eq_append_conv2 prefix_def)

lemma drop_after_head:
  "c # cs = L @ b \<Longrightarrow> L \<noteq> [] \<Longrightarrow> drop (length L - 1) cs = b"
  by (cases L) auto

lemma iconPaths_none:
  "\<not> (\<exists>ds. ds \<noteq> [] \<and> (\<forall>d\<in>set ds. isDigit d) \<and> sublist (iconPrefix @ ds @ iconSuffix) s)
   \<Longrightarrow> iconPaths s = []"
proof (induction s)
  case Nil
  show ?case by simp
next
  case (Cons c cs)
  have n: "iconAt (c # cs) = None"
  proof (cases "iconAt (c # cs)")
    case None
    then show ?thesis .
  next
    case (Some pn)
    obtain p n where pn: "pn = (p, n)" by (cases pn)
    from iconAt_Some [OF Some [unfolded pn]]
    obtain ds r where ds: "ds \<noteq> []" "\<forall>d\<in>set ds. isDigit d"
      "c # cs = iconPrefix @ ds @ iconSuffix @ r"
      by blast
    have "sublist (iconPrefix @ ds @ iconSuffix) (c # cs)"
      unfolding ds(3) sublist_def by (intro exI [of _ "[]"] exI [of _ r]) simp
    with ds(1,2) Cons.prems show ?thesis by blast
  qed
  have "\<not> (\<exists>ds. ds \<noteq> [] \<and> (\<forall>d\<in>set ds. isDigit d)
           \<and> sublist (iconPrefix @ ds @ iconSuffix) cs)"
    using Cons.prems by (auto simp: sublist_Cons_right)
  from Cons.IH [OF this] n show ?case by simp
qed

lemma butlast_iconLiteral:
  "butlast (iconPrefix @ ds @ iconSuffix) = iconPrefix @ ds @ ''.png''"
  by (simp add: iconSuffix_def butlast_append)

lemma iconPaths_first:
  assumes "ds \<noteq> []" and "\<forall>d\<in>set ds. isDigit d"
  shows "\<not> (\<exists>ds'. ds' \<noteq> [] \<and> (\<forall>d\<in>set ds'. isDigit d)
             \<and> sublist (iconPrefix @ ds' @ iconSuffix) (a @ butlast (iconPrefix @ ds @ iconSuffix)))
         \<Longrightarrow> iconPaths (a @ iconPrefix @ ds @ iconSuffix @ b)
             = (''icons/icon'' @ ds @ ''.png'') # iconPaths b"
proof (induction a)
  case Nil
  obtain c cs where c: "iconPrefix @ ds @ iconSuffix @ b = c # cs"
    by (cases "iconPrefix @ ds @ iconSuffix @ b") (auto simp: iconPrefix_def)
  have at: "iconAt (c # cs) = Some (''icons/icon'' @ ds @ ''.png'', 11 + length ds + 5)"
    using iconAt_literal [OF assms, of b] c by simp
  have ll: "11 + length ds + 5 - 1 = length (iconPrefix @ ds @ iconSuffix) - 1"
    by (simp add: iconPrefix_def iconSuffix_def)
  have ne: "iconPrefix @ ds @ iconSuffix \<noteq> []"
    by (simp add: iconPrefix_def)
  have cc: "c # cs = (iconPrefix @ ds @ iconSuffix) @ b"
    using c by simp
  have dr: "drop (11 + length ds + 5 - 1) cs = b"
    unfolding ll using cc ne by (rule drop_after_head)
  have "iconPaths (c # cs) = (''icons/icon'' @ ds @ ''.png'') # iconPaths b"
    using at dr by simp
  then show ?case using c by simp
next
  case (Cons x a)
  let ?L = "iconPrefix @ ds @ iconSuffix"
  have e: "(x # a) @ ?L @ b = ((x # a) @ butlast ?L) @ ([DQUOTE] @ b)"
    by (simp only: butlast_iconLiteral) (simp add: iconSuffix_def)
  have n: "iconAt (x # a @ ?L @ b) = None"
  proof (cases "iconAt (x # a @ ?L @ b)")
    case None
    then show ?thesis .
  next
    case (Some pn)
    obtain p n where pn: "pn = (p, n)" by (cases pn)
    from iconAt_Some [OF Some [unfolded pn]]
    obtain ds' r where d': "ds' \<noteq> []" "\<forall>d\<in>set ds'. isDigit d"
      "x # a @ ?L @ b = iconPrefix @ ds' @ iconSuffix @ r"
      by blast
    let ?body = "''icons/icon'' @ ds' @ ''.png''"
    let ?M = "DQUOTE # ?body @ [DQUOTE]"
    have M: "iconPrefix @ ds' @ iconSuffix = ?M"
      by (simp add: iconPrefix_def iconSuffix_def)
    have m: "?M @ r = (x # a) @ DQUOTE # (''icons/icon'' @ ds @ iconSuffix @ b)"
      using d'(3) by (simp add: iconPrefix_def iconSuffix_def)
    have len: "length ?M \<le> length ((x # a) @ butlast ?L)"
    proof (cases "length (x # a) < length ?M")
      case False
      then show ?thesis by simp
    next
      case True
      from append_eq_shorter [OF m True]
      obtain us where us: "?M = (x # a) @ us"
        "us @ r = DQUOTE # (''icons/icon'' @ ds @ iconSuffix @ b)" "us \<noteq> []"
        by blast
      from us(2,3) obtain w where w: "us = DQUOTE # w"
        by (cases us) auto
      from us(1) w have "?body @ [DQUOTE] = a @ DQUOTE # w"
        by simp
      from quote_split [OF iconBody_no_quote [OF d'(2)] this] have "a = ?body" by simp
      then have "length ?M = Suc (Suc (length a))" by simp
      then show ?thesis
        by (simp add: butlast_iconLiteral iconPrefix_def)
    qed
    have len': "length (iconPrefix @ ds' @ iconSuffix) \<le> length ((x # a) @ butlast ?L)"
      unfolding M by (rule len)
    have "(iconPrefix @ ds' @ iconSuffix) @ r = (x # a) @ ?L @ b"
      using d'(3) by simp
    also note e
    finally have "(iconPrefix @ ds' @ iconSuffix) @ r
        = ((x # a) @ butlast ?L) @ ([DQUOTE] @ b)" .
    from prefix_of_longer [OF this len']
    have "sublist (iconPrefix @ ds' @ iconSuffix) ((x # a) @ butlast ?L)"
      by (rule prefix_imp_sublist)
    with d'(1,2) Cons.prems show ?thesis by blast
  qed
  have "\<not> (\<exists>ds'. ds' \<noteq> [] \<and> (\<forall>d\<in>set ds'. isDigit d)
             \<and> sublist (iconPrefix @ ds' @ iconSuffix) (a @ butlast ?L))"
    using Cons.prems by (auto simp: sublist_Cons_right)
  from Cons.IH [OF this] n show ?case by simp
qed

lemma iconPaths_nonempty:
  assumes "ds \<noteq> []" and "\<forall>d\<in>set ds. isDigit d"
  shows "iconPaths (ps @ iconPrefix @ ds @ iconSuffix @ ss) \<noteq> []"
proof (induction ps)
  case Nil
  obtain c cs where c: "iconPrefix @ ds @ iconSuffix @ ss = c # cs"
    by (cases "iconPrefix @ ds @ iconSuffix @ ss") (auto simp: iconPrefix_def)
  have "iconAt (c # cs) = Some (''icons/icon'' @ ds @ ''.png'', 11 + length ds + 5)"
    using iconAt_literal [OF assms, of ss] c by simp
  then have "iconPaths (c # cs) \<noteq> []" by simp
  then show ?case using c by simp
next
  case (Cons x ps)
  then show ?case
    by (cases "iconAt (x # ps @ iconPrefix @ ds @ iconSuffix @ ss)") auto
qed

lemma no_reference_if_no_match:
  assumes "iconPaths s = []"
  shows "\<not> (\<exists>ds. ds \<noteq> [] \<and> (\<forall>d\<in>set ds. isDigit d) \<and> sublist (iconPrefix @ ds @ iconSuffix) s)"
proof
  assume "\<exists>ds. ds \<noteq> [] \<and> (\<forall>d\<in>set ds. isDigit d) \<and> sublist (iconPrefix @ ds @ iconSuffix) s"
  then obtain ds ps ss where ds: "ds \<noteq> []" "\<forall>d\<in>set ds. isDigit d"
    "s = ps @ (iconPrefix @ ds @ iconSuffix) @ ss"
    by (auto simp: sublist_def)
  from iconPaths_nonempty [OF ds(1,2), of ps ss] ds(3) assms show False by simp
qed

text \<open>
  C7, as the code has it. Let \<open>fs\<close> be the files the extractor finds in the sections of the
  text and \<open>m\<close> the first of them whose path is exactly \<open>manifest.json\<close>. The extractor
  returns \<open>fs\<close> followed by one placeholder with empty content for each path that the scan
  of \<open>m\<close>'s content collects and that no file of \<open>fs\<close> has, in the order of first mention;
  the placeholders have pairwise different paths, so a path named twice gives one stub.
  The scan collects only paths \<open>icons/icon<digits>.png\<close> that stand between double quotes
  in the content. It goes from left to right and resumes after the end of each match: a
  text without a quoted reference gives nothing, and otherwise the leftmost quoted
  reference is collected and the scan goes on in the text after its closing quote. So
  every quoted reference is collected whose opening quote is not at the same time the
  closing quote of a reference before it, and a reference that opens with the closing quote
  of the preceding match is skipped.
\<close>

theorem parseWithRegex_manifest_icons:
  assumes "fs = collectFiles (splitSections t)"
    and "find (\<lambda>f. path f = ''manifest.json'') fs = Some m"
  shows "m \<in> set fs \<and> path m = ''manifest.json''
    \<and> parseWithRegex t
        = fs @ map (\<lambda>p. \<lparr>path = p, content = []\<rparr>)
                 (filter (\<lambda>p. p \<notin> set (map path fs)) (newSet [] (iconPaths (content m))))
    \<and> distinct (filter (\<lambda>p. p \<notin> set (map path fs)) (newSet [] (iconPaths (content m))))
    \<and> set (filter (\<lambda>p. p \<notin> set (map path fs)) (newSet [] (iconPaths (content m))))
        = set (iconPaths (content m)) - set (map path fs)
    \<and> (\<forall>p\<in>set (iconPaths (content m)).
          \<exists>ds. ds \<noteq> [] \<and> (\<forall>d\<in>set ds. isDigit d) \<and> p = ''icons/icon'' @ ds @ ''.png''
             \<and> sublist (iconPrefix @ ds @ iconSuffix) (content m))
    \<and> (\<not> (\<exists>ds. ds \<noteq> [] \<and> (\<forall>d\<in>set ds. isDigit d)
              \<and> sublist (iconPrefix @ ds @ iconSuffix) s)
        \<longrightarrow> iconPaths s = [])
    \<and> (ds \<noteq> [] \<and> (\<forall>d\<in>set ds. isDigit d)
        \<and> \<not> (\<exists>ds'. ds' \<noteq> [] \<and> (\<forall>d\<in>set ds'. isDigit d)
              \<and> sublist (iconPrefix @ ds' @ iconSuffix)
                   (a @ butlast (iconPrefix @ ds @ iconSuffix)))
        \<longrightarrow> iconPaths (a @ iconPrefix @ ds @ iconSuffix @ b)
            = (''icons/icon'' @ ds @ ''.png'') # iconPaths b)
    \<and> (\<forall>pre ds post.
          content m = pre @ iconPrefix @ ds @ iconSuffix @ post
          \<and> ds \<noteq> [] \<and> (\<forall>d\<in>set ds. isDigit d)
          \<and> \<not> (\<exists>u ds'. ds' \<noteq> [] \<and> (\<forall>d\<in>set ds'. isDigit d)
                  \<and> pre = u @ iconPrefix @ ds' @ ''.png'')
          \<longrightarrow> ''icons/icon'' @ ds @ ''.png'' \<in> set (iconPaths (content m)))"
proof -
  have p: "parseWithRegex t = addManifestIcons fs"
    by (simp add: parseWithRegex_def assms(1))
  note c = addManifestIcons_cases [OF assms(2)]
  have 0: "m \<in> set fs" and 1: "path m = ''manifest.json''"
    using c by blast+
  have 2: "parseWithRegex t
        = fs @ map (\<lambda>p. \<lparr>path = p, content = []\<rparr>)
                 (filter (\<lambda>p. p \<notin> set (map path fs)) (newSet [] (iconPaths (content m))))"
    unfolding p using c by blast
  have 3: "distinct (filter (\<lambda>p. p \<notin> set (map path fs)) (newSet [] (iconPaths (content m))))"
    using c by blast
  have 4: "set (filter (\<lambda>p. p \<notin> set (map path fs)) (newSet [] (iconPaths (content m))))
        = set (iconPaths (content m)) - set (map path fs)"
    using c by blast
  have 5: "\<forall>p\<in>set (iconPaths (content m)).
          \<exists>ds. ds \<noteq> [] \<and> (\<forall>d\<in>set ds. isDigit d) \<and> p = ''icons/icon'' @ ds @ ''.png''
             \<and> sublist (iconPrefix @ ds @ iconSuffix) (content m)"
    by (rule iconPaths_sound)
  have 6: "\<not> (\<exists>ds. ds \<noteq> [] \<and> (\<forall>d\<in>set ds. isDigit d)
              \<and> sublist (iconPrefix @ ds @ iconSuffix) s)
        \<longrightarrow> iconPaths s = []"
    using iconPaths_none [of s] by blast
  have 7: "ds \<noteq> [] \<and> (\<forall>d\<in>set ds. isDigit d)
        \<and> \<not> (\<exists>ds'. ds' \<noteq> [] \<and> (\<forall>d\<in>set ds'. isDigit d)
              \<and> sublist (iconPrefix @ ds' @ iconSuffix)
                   (a @ butlast (iconPrefix @ ds @ iconSuffix)))
        \<longrightarrow> iconPaths (a @ iconPrefix @ ds @ iconSuffix @ b)
            = (''icons/icon'' @ ds @ ''.png'') # iconPaths b"
    using iconPaths_first [of ds a b] by blast
  have 8: "\<forall>pre ds post.
          content m = pre @ iconPrefix @ ds @ iconSuffix @ post
          \<and> ds \<noteq> [] \<and> (\<forall>d\<in>set ds. isDigit d)
          \<and> \<not> (\<exists>u ds'. ds' \<noteq> [] \<and> (\<forall>d\<in>set ds'. isDigit d)
                  \<and> pre = u @ iconPrefix @ ds' @ ''.png'')
          \<longrightarrow> ''icons/icon'' @ ds @ ''.png'' \<in> set (iconPaths (content m))"
    using iconPaths_complete by blast
  show ?thesis
    by (rule conjI [OF 0 conjI [OF 1 conjI [OF 2 conjI [OF 3 conjI [OF 4 conjI [OF 5
          conjI [OF 6 conjI [OF 7 8]]]]]]]])
qed

lemma collectFiles_sampleManifest:
  "collectFiles (splitSections (manifestHeader @ content sampleManifest)) = [sampleManifest]"
  by code_simp

theorem parseWithRegex_manifest_icons_witness:
  "parseWithRegex (manifestHeader @ content sampleManifest)
     = [sampleManifest,
        \<lparr>path = ''icons/icon1.png'', content = []\<rparr>, \<lparr>path = ''icons/icon2.png'', content = []\<rparr>]
   \<and> iconPaths (''['' @ iconPrefix @ ''1'' @ iconSuffix @ '']'') = [''icons/icon1.png'']"
proof -
  let ?t = "manifestHeader @ content sampleManifest"
  have p: "path sampleManifest = ''manifest.json''"
    by (simp add: sampleManifest_def)
  have f: "find (\<lambda>f. path f = ''manifest.json'') [sampleManifest] = Some sampleManifest"
    by (simp add: p)
  note w = parseWithRegex_manifest_icons
    [OF collectFiles_sampleManifest [symmetric] f, of "'']''" "''1''" "''[''" "'']''"]
  from w have "parseWithRegex ?t
        = [sampleManifest] @ map (\<lambda>p. \<lparr>path = p, content = []\<rparr>)
                 (filter (\<lambda>p. p \<notin> set (map path [sampleManifest]))
                    (newSet [] (iconPaths (content sampleManifest))))"
    by blast
  then have 1: "parseWithRegex ?t
     = [sampleManifest,
        \<lparr>path = ''icons/icon1.png'', content = []\<rparr>, \<lparr>path = ''icons/icon2.png'', content = []\<rparr>]"
    by (simp add: iconPaths_sampleManifest p)
  have d: "''1'' \<noteq> [] \<and> (\<forall>d\<in>set ''1''. isDigit d)"
    by (simp add: isDigit_def)
  have "iconPaths (''['' @ butlast (iconPrefix @ ''1'' @ iconSuffix)) = []"
    by code_simp
  from no_reference_if_no_match [OF this]
  have n1: "\<not> (\<exists>ds'. ds' \<noteq> [] \<and> (\<forall>d\<in>set ds'. isDigit d)
      \<and> sublist (iconPrefix @ ds' @ iconSuffix) (''['' @ butlast (iconPrefix @ ''1'' @ iconSuffix)))" .
  have "iconPaths '']'' = []"
    by code_simp
  from no_reference_if_no_match [OF this]
  have n2: "\<not> (\<exists>ds. ds \<noteq> [] \<and> (\<forall>d\<in>set ds. isDigit d)
      \<and> sublist (iconPrefix @ ds @ iconSuffix) '']'')" .
  from w n2 have e: "iconPaths '']'' = []" by blast
  from w d n1 have "iconPaths (''['' @ iconPrefix @ ''1'' @ iconSuffix @ '']'')
      = (''icons/icon'' @ ''1'' @ ''.png'') # iconPaths '']''"
    by blast
  with e have 2: "iconPaths (''['' @ iconPrefix @ ''1'' @ iconSuffix @ '']'') = [''icons/icon1.png'']"
    by simp
  show ?thesis using 1 2 by blast
qed

text \<open>
  Not every quoted reference is collected. In \<open>sharedQuoteContent\<close> the quoted reference
  to \<open>icons/icon5.png\<close> opens with the quote that closes the reference to
  \<open>icons/icon4.png\<close>, and the extractor adds a stub for \<open>icons/icon4.png\<close> only. In
  \<open>bareWordContent\<close> the string \<open>"icons/icon2.png"\<close> gets no stub, while the bare
  word \<open>icons/icon1.png\<close> between two strings gets one.
\<close>

theorem manifest_shared_quote_counterexample:
  "sublist (iconPrefix @ ''5'' @ iconSuffix) sharedQuoteContent
   \<and> parseWithRegex (manifestHeader @ sharedQuoteContent)
     = [\<lparr>path = ''manifest.json'', content = sharedQuoteContent\<rparr>,
        \<lparr>path = ''icons/icon4.png'', content = []\<rparr>]
   \<and> sublist (iconPrefix @ ''2'' @ iconSuffix) bareWordContent
   \<and> parseWithRegex (manifestHeader @ bareWordContent)
     = [\<lparr>path = ''manifest.json'', content = bareWordContent\<rparr>,
        \<lparr>path = ''icons/icon1.png'', content = []\<rparr>]"
  by code_simp

section \<open>The prompt of Find Additional Files\<close>

lemma getSubstitution_verbatim:
  "\<forall>q\<in>set dollarPatterns. \<not> sublist q r \<Longrightarrow> getSubstitution m b a r = r"
proof (induction m b a r rule: getSubstitution.induct)
  case (1 m b a)
  show ?case by simp
next
  case (2 m b a c)
  show ?case by simp
next
  case (3 m b a c d r)
  have tl: "\<forall>q\<in>set dollarPatterns. \<not> sublist q (d # r)"
    using "3.prems" by (auto simp: sublist_Cons_right [of _ c])
  show ?case
  proof (cases "c = CHR ''$''")
    case False
    from "3.IH"(6) [OF False tl] False show ?thesis by simp
  next
    case True
    have "\<not> prefix [CHR ''$'', d] (c # d # r) \<or> [CHR ''$'', d] \<notin> set dollarPatterns"
      using "3.prems" by (auto simp: sublist_Cons_right)
    with True have "[CHR ''$'', d] \<notin> set dollarPatterns" by simp
    then have d: "d \<noteq> CHR ''$''" "d \<noteq> CHR ''&''" "d \<noteq> BACKTICK" "d \<noteq> APOSTROPHE"
      by (auto simp: dollarPatterns_def)
    from "3.IH"(5) [OF True d tl] True d show ?thesis by simp
  qed
qed

lemma prefix_take: "prefix pat s \<longleftrightarrow> take (length pat) s = pat"
proof
  assume "prefix pat s"
  then show "take (length pat) s = pat" by (auto simp: prefix_def)
next
  assume "take (length pat) s = pat"
  then have "s = pat @ drop (length pat) s" by (metis append_take_drop_id)
  then show "prefix pat s" by (metis prefixI)
qed

lemma findFirst_first:
  assumes "pat \<noteq> []"
  shows "\<not> sublist pat (pre @ butlast pat) \<Longrightarrow> findFirst pat (pre @ pat @ post) = Some (pre, post)"
proof (induction pre)
  case Nil
  from assms obtain c cs where pat: "pat = c # cs" by (cases pat) auto
  have "findFirst pat (pat @ post) = Some ([], drop (length pat) (pat @ post))"
    unfolding pat by simp
  then show ?case by simp
next
  case (Cons x pre)
  from Cons.prems have np': "\<not> prefix pat ((x # pre) @ butlast pat)"
    and ns: "\<not> sublist pat (pre @ butlast pat)"
    by (auto simp: sublist_Cons_right)
  have l: "length pat \<le> length ((x # pre) @ butlast pat)"
    using assms by (cases pat) simp_all
  have e: "(x # pre) @ pat @ post = ((x # pre) @ butlast pat) @ ([last pat] @ post)"
    using assms by simp
  have "take (length pat) ((x # pre) @ pat @ post) = take (length pat) ((x # pre) @ butlast pat)"
    unfolding e using l by (rule take_append_le)
  with np' have np: "\<not> prefix pat (x # pre @ pat @ post)"
    by (simp add: prefix_take)
  from Cons.IH [OF ns] np show ?case by simp
qed

lemma first_occurrence_exists:
  assumes "pat \<noteq> []"
  shows "sublist pat s \<Longrightarrow> \<exists>a b. s = a @ pat @ b \<and> \<not> sublist pat (a @ butlast pat)"
proof (induction s)
  case Nil
  with assms show ?case by simp
next
  case (Cons c cs)
  have short: "\<not> sublist pat (butlast pat)"
  proof
    assume "sublist pat (butlast pat)"
    then have "length pat \<le> length (butlast pat)" by (rule sublist_length_le)
    with assms show False by (cases pat rule: rev_cases) simp_all
  qed
  show ?case
  proof (cases "prefix pat (c # cs)")
    case True
    then obtain b where "c # cs = [] @ pat @ b" by (auto simp: prefix_def)
    with short show ?thesis by (intro exI [of _ "[]"] exI [of _ b]) simp
  next
    case False
    with Cons.prems have "sublist pat cs" by (simp add: sublist_Cons_right)
    from Cons.IH [OF this] obtain a b where ab: "cs = a @ pat @ b"
      "\<not> sublist pat (a @ butlast pat)" by blast
    have "prefix (c # a @ butlast pat) (c # cs)"
      unfolding ab(1) using assms
      by (metis append_butlast_last_id Cons_prefix_Cons prefixI append_assoc same_prefix_prefix)
    then have "\<not> prefix pat (c # a @ butlast pat)"
      using False prefix_order.trans by blast
    with ab(2) have "\<not> sublist pat ((c # a) @ butlast pat)"
      by (simp add: sublist_Cons_right)
    with ab(1) show ?thesis by (intro exI [of _ "c # a"] exI [of _ b]) simp
  qed
qed

lemma findFirst_none:
  "\<not> sublist pat s \<Longrightarrow> findFirst pat s = None"
proof (induction s)
  case Nil
  then show ?case by auto
next
  case (Cons c cs)
  then have "\<not> prefix pat (c # cs)" and "\<not> sublist pat cs"
    by (auto simp: sublist_Cons_right)
  with Cons.IH show ?case by simp
qed

lemma replace_absent:
  "\<not> sublist pat s \<Longrightarrow> replace s pat r = s"
  by (simp add: replace_def findFirst_none)

lemma replace_first:
  assumes "pat \<noteq> []" and "\<not> sublist pat (pre @ butlast pat)"
    and "\<forall>q\<in>set dollarPatterns. \<not> sublist q r"
  shows "replace (pre @ pat @ post) pat r = pre @ r @ post"
  using findFirst_first [OF assms(1,2), of post] getSubstitution_verbatim [OF assms(3)]
  by (simp add: replace_def)

lemma hexDigit_plain: "hexDigit n \<noteq> CHR ''$''"
proof -
  have "hexDigit n \<in> set ''0123456789abcdef''"
    unfolding hexDigit_def by (rule nth_mem) simp
  then show ?thesis by auto
qed

lemma quoteJSONChar_plain:
  "c \<noteq> CHR ''$'' \<Longrightarrow> CHR ''$'' \<notin> set (quoteJSONChar c)"
  using hexDigit_plain [of "of_char c div 16"] hexDigit_plain [of "of_char c"]
  by (auto simp: quoteJSONChar_def BACKSLASH_def DQUOTE_def)

lemma quoteJSONString_plain:
  assumes "CHR ''$'' \<notin> set s"
  shows "CHR ''$'' \<notin> set (quoteJSONString s)"
proof -
  have "CHR ''$'' \<notin> set (quoteJSONChar c)" if "c \<in> set s" for c
  proof -
    from that assms have "c \<noteq> CHR ''$''" by auto
    then show ?thesis by (rule quoteJSONChar_plain)
  qed
  then show ?thesis
    by (auto simp: quoteJSONString_def DQUOTE_def)
qed

lemma joinWith_plain:
  "c \<notin> set sep \<Longrightarrow> \<forall>x\<in>set xs. c \<notin> set x \<Longrightarrow> c \<notin> set (joinWith sep xs)"
  by (induction sep xs rule: joinWith.induct) auto

lemma JSON_stringify_plain:
  "\<forall>x\<in>set xs. CHR ''$'' \<notin> set x \<Longrightarrow> CHR ''$'' \<notin> set (JSON_stringify xs)"
proof -
  assume "\<forall>x\<in>set xs. CHR ''$'' \<notin> set x"
  then have "\<forall>q\<in>set (map quoteJSONString xs). CHR ''$'' \<notin> set q"
    by (simp add: quoteJSONString_plain)
  then have "CHR ''$'' \<notin> set (joinWith '','' (map quoteJSONString xs))"
    by (intro joinWith_plain) simp_all
  then show ?thesis
    by (simp add: JSON_stringify_def)
qed

lemma parsedFilePaths_plain:
  "\<forall>f\<in>set (files pd). CHR ''$'' \<notin> set (path f) \<Longrightarrow> CHR ''$'' \<notin> set (parsedFilePaths pd)"
  using JSON_stringify_plain [of "map path (files pd)"]
  by (simp add: parsedFilePaths_def)

lemma no_dollar_no_pattern:
  assumes "CHR ''$'' \<notin> set r"
  shows "\<forall>q\<in>set dollarPatterns. \<not> sublist q r"
proof
  fix q assume q: "q \<in> set dollarPatterns"
  show "\<not> sublist q r"
  proof
    assume "sublist q r"
    then have "set q \<subseteq> set r" by (rule set_mono_sublist)
    moreover from q have "CHR ''$'' \<in> set q" by (auto simp: dollarPatterns_def)
    ultimately show False using assms by blast
  qed
qed

lemma findFilesPrompt_replace:
  "findFilesPrompt pd promptText
     = replace (replace promptText ORIGINAL_CONTENT_PLACEHOLDER (fullProjectContent pd))
         PARSED_FILES_PLACEHOLDER (parsedFilePaths pd)"
  by (simp add: findFilesPrompt_def parsedFilePaths_def ORIGINAL_CONTENT_PLACEHOLDER_def
      PARSED_FILES_PLACEHOLDER_def)

text \<open>
  C8, as the code has it. The prompt is the template with the first occurrence of
  \<open>ORIGINAL_CONTENT_PLACEHOLDER\<close>, if there is one, replaced and then, in the resulting
  text, the first occurrence of \<open>PARSED_FILES_PLACEHOLDER\<close>, if there is one, replaced.
  When neither the project content nor the encoded path list holds one of the sequences
  \<open>$$\<close>, \<open>$&\<close>, \<open>$`\<close>, \<open>$'\<close>, the first token gives way to \<open>fullProjectContent\<close> as it
  is and the second to the JSON array of the paths of \<open>files\<close>, or to the marker \<open>Nessuno\<close>
  when \<open>files\<close> is empty. The four cases below cover every template: either token may be
  absent, the second is looked for in the text that the first replacement gives, and a text
  that holds a token has a first occurrence of it.
\<close>

theorem findFilesPrompt_spec:
  assumes "\<forall>q\<in>set dollarPatterns. \<not> sublist q (fullProjectContent pd)"
    and "\<forall>q\<in>set dollarPatterns. \<not> sublist q (parsedFilePaths pd)"
  shows "(\<not> sublist ORIGINAL_CONTENT_PLACEHOLDER promptText
          \<and> \<not> sublist PARSED_FILES_PLACEHOLDER promptText
          \<longrightarrow> findFilesPrompt pd promptText = promptText)
       \<and> (promptText = a @ ORIGINAL_CONTENT_PLACEHOLDER @ b
          \<and> \<not> sublist ORIGINAL_CONTENT_PLACEHOLDER (a @ butlast ORIGINAL_CONTENT_PLACEHOLDER)
          \<and> \<not> sublist PARSED_FILES_PLACEHOLDER (a @ fullProjectContent pd @ b)
          \<longrightarrow> findFilesPrompt pd promptText = a @ fullProjectContent pd @ b)
       \<and> (\<not> sublist ORIGINAL_CONTENT_PLACEHOLDER promptText
          \<and> promptText = a @ PARSED_FILES_PLACEHOLDER @ b
          \<and> \<not> sublist PARSED_FILES_PLACEHOLDER (a @ butlast PARSED_FILES_PLACEHOLDER)
          \<longrightarrow> findFilesPrompt pd promptText = a @ parsedFilePaths pd @ b)
       \<and> (promptText = a @ ORIGINAL_CONTENT_PLACEHOLDER @ b
          \<and> \<not> sublist ORIGINAL_CONTENT_PLACEHOLDER (a @ butlast ORIGINAL_CONTENT_PLACEHOLDER)
          \<and> a @ fullProjectContent pd @ b = c @ PARSED_FILES_PLACEHOLDER @ d
          \<and> \<not> sublist PARSED_FILES_PLACEHOLDER (c @ butlast PARSED_FILES_PLACEHOLDER)
          \<longrightarrow> findFilesPrompt pd promptText = c @ parsedFilePaths pd @ d)
       \<and> (sublist ORIGINAL_CONTENT_PLACEHOLDER promptText
          \<longrightarrow> (\<exists>a b. promptText = a @ ORIGINAL_CONTENT_PLACEHOLDER @ b
                \<and> \<not> sublist ORIGINAL_CONTENT_PLACEHOLDER
                       (a @ butlast ORIGINAL_CONTENT_PLACEHOLDER)))
       \<and> (sublist PARSED_FILES_PLACEHOLDER s
          \<longrightarrow> (\<exists>c d. s = c @ PARSED_FILES_PLACEHOLDER @ d
                \<and> \<not> sublist PARSED_FILES_PLACEHOLDER
                       (c @ butlast PARSED_FILES_PLACEHOLDER)))
       \<and> parsedFilePaths pd
           = (if files pd = [] then ''Nessuno'' else JSON_stringify (map path (files pd)))
       \<and> ((\<forall>f\<in>set (files pd). CHR ''$'' \<notin> set (path f))
          \<longrightarrow> (\<forall>q\<in>set dollarPatterns. \<not> sublist q (parsedFilePaths pd)))"
proof -
  have o: "ORIGINAL_CONTENT_PLACEHOLDER \<noteq> []"
    by (simp add: ORIGINAL_CONTENT_PLACEHOLDER_def)
  have p: "PARSED_FILES_PLACEHOLDER \<noteq> []"
    by (simp add: PARSED_FILES_PLACEHOLDER_def)
  have 1: "findFilesPrompt pd promptText = promptText"
    if "\<not> sublist ORIGINAL_CONTENT_PLACEHOLDER promptText
          \<and> \<not> sublist PARSED_FILES_PLACEHOLDER promptText"
    using that by (simp add: findFilesPrompt_replace replace_absent)
  have 2: "findFilesPrompt pd promptText = a @ fullProjectContent pd @ b"
    if h: "promptText = a @ ORIGINAL_CONTENT_PLACEHOLDER @ b
          \<and> \<not> sublist ORIGINAL_CONTENT_PLACEHOLDER (a @ butlast ORIGINAL_CONTENT_PLACEHOLDER)
          \<and> \<not> sublist PARSED_FILES_PLACEHOLDER (a @ fullProjectContent pd @ b)"
  proof -
    from h replace_first [OF o _ assms(1), of a b]
    have "replace promptText ORIGINAL_CONTENT_PLACEHOLDER (fullProjectContent pd)
        = a @ fullProjectContent pd @ b"
      by simp
    with h show ?thesis
      by (simp add: findFilesPrompt_replace replace_absent)
  qed
  have 3: "findFilesPrompt pd promptText = a @ parsedFilePaths pd @ b"
    if h: "\<not> sublist ORIGINAL_CONTENT_PLACEHOLDER promptText
          \<and> promptText = a @ PARSED_FILES_PLACEHOLDER @ b
          \<and> \<not> sublist PARSED_FILES_PLACEHOLDER (a @ butlast PARSED_FILES_PLACEHOLDER)"
  proof -
    from h have n: "\<not> sublist ORIGINAL_CONTENT_PLACEHOLDER promptText"
      and t: "promptText = a @ PARSED_FILES_PLACEHOLDER @ b"
      by blast+
    have "replace promptText ORIGINAL_CONTENT_PLACEHOLDER (fullProjectContent pd) = promptText"
      using n by (rule replace_absent)
    then have "replace promptText ORIGINAL_CONTENT_PLACEHOLDER (fullProjectContent pd)
        = a @ PARSED_FILES_PLACEHOLDER @ b"
      using t by simp
    moreover from h replace_first [OF p _ assms(2), of a b]
    have "replace (a @ PARSED_FILES_PLACEHOLDER @ b) PARSED_FILES_PLACEHOLDER
            (parsedFilePaths pd) = a @ parsedFilePaths pd @ b"
      by simp
    ultimately show ?thesis
      by (simp only: findFilesPrompt_replace)
  qed
  have 4: "findFilesPrompt pd promptText = c @ parsedFilePaths pd @ d"
    if h: "promptText = a @ ORIGINAL_CONTENT_PLACEHOLDER @ b
          \<and> \<not> sublist ORIGINAL_CONTENT_PLACEHOLDER (a @ butlast ORIGINAL_CONTENT_PLACEHOLDER)
          \<and> a @ fullProjectContent pd @ b = c @ PARSED_FILES_PLACEHOLDER @ d
          \<and> \<not> sublist PARSED_FILES_PLACEHOLDER (c @ butlast PARSED_FILES_PLACEHOLDER)"
  proof -
    from h replace_first [OF o _ assms(1), of a b]
    have "replace promptText ORIGINAL_CONTENT_PLACEHOLDER (fullProjectContent pd)
        = c @ PARSED_FILES_PLACEHOLDER @ d"
      by simp
    moreover from h replace_first [OF p _ assms(2), of c d]
    have "replace (c @ PARSED_FILES_PLACEHOLDER @ d) PARSED_FILES_PLACEHOLDER
            (parsedFilePaths pd) = c @ parsedFilePaths pd @ d"
      by simp
    ultimately show ?thesis
      by (simp only: findFilesPrompt_replace)
  qed
  have 5: "parsedFilePaths pd
           = (if files pd = [] then ''Nessuno'' else JSON_stringify (map path (files pd)))"
    by (simp add: parsedFilePaths_def)
  have 6: "\<forall>q\<in>set dollarPatterns. \<not> sublist q (parsedFilePaths pd)"
    if "\<forall>f\<in>set (files pd). CHR ''$'' \<notin> set (path f)"
    using that by (intro no_dollar_no_pattern parsedFilePaths_plain)
  have 7: "\<exists>a b. promptText = a @ ORIGINAL_CONTENT_PLACEHOLDER @ b
                \<and> \<not> sublist ORIGINAL_CONTENT_PLACEHOLDER
                       (a @ butlast ORIGINAL_CONTENT_PLACEHOLDER)"
    if "sublist ORIGINAL_CONTENT_PLACEHOLDER promptText"
    using that by (rule first_occurrence_exists [OF o])
  have 8: "\<exists>c d. s = c @ PARSED_FILES_PLACEHOLDER @ d
                \<and> \<not> sublist PARSED_FILES_PLACEHOLDER
                       (c @ butlast PARSED_FILES_PLACEHOLDER)"
    if "sublist PARSED_FILES_PLACEHOLDER s"
    using that by (rule first_occurrence_exists [OF p])
  from 1 2 3 4 5 6 7 8 show ?thesis
    by (intro conjI impI) assumption+
qed

text \<open>
  Two runs: a template with both tokens and a project content whose dollar signs start
  no template sequence, and a template with the second token only and no file.
\<close>

theorem findFilesPrompt_spec_witness:
  "findFilesPrompt priceData sampleTemplate
     = ''Text: price: $5 and ${HOME} and $x Files: ['' @ [DQUOTE] @ ''a.txt'' @ [DQUOTE] @ '',''
         @ [DQUOTE] @ ''b.txt'' @ [DQUOTE] @ ''].''
   \<and> findFilesPrompt (sampleData [] []) (''Files: '' @ PARSED_FILES_PLACEHOLDER)
     = ''Files: Nessuno''"
proof -
  have c1: "\<forall>q\<in>set dollarPatterns. \<not> sublist q (fullProjectContent priceData)"
    by code_simp
  have p1: "\<forall>q\<in>set dollarPatterns. \<not> sublist q (parsedFilePaths priceData)"
    by code_simp
  have c2: "\<forall>q\<in>set dollarPatterns. \<not> sublist q (fullProjectContent (sampleData [] []))"
    by code_simp
  have p2: "\<forall>q\<in>set dollarPatterns. \<not> sublist q (parsedFilePaths (sampleData [] []))"
    by code_simp
  let ?a = "''Text: ''"
  let ?b = "'' Files: '' @ PARSED_FILES_PLACEHOLDER @ ''.''"
  let ?c = "''Text: '' @ fullProjectContent priceData @ '' Files: ''"
  have t: "sampleTemplate = ?a @ ORIGINAL_CONTENT_PLACEHOLDER @ ?b"
    by (simp add: sampleTemplate_def)
  have o: "\<not> sublist ORIGINAL_CONTENT_PLACEHOLDER (?a @ butlast ORIGINAL_CONTENT_PLACEHOLDER)"
    by code_simp
  have e: "?a @ fullProjectContent priceData @ ?b = ?c @ PARSED_FILES_PLACEHOLDER @ ''.''"
    by simp
  have f: "\<not> sublist PARSED_FILES_PLACEHOLDER (?c @ butlast PARSED_FILES_PLACEHOLDER)"
    by code_simp
  have "findFilesPrompt priceData sampleTemplate = ?c @ parsedFilePaths priceData @ ''.''"
    using findFilesPrompt_spec [OF c1 p1, of sampleTemplate ?a ?b ?c "''.''"] t o e f
    by blast
  moreover have "?c @ parsedFilePaths priceData @ ''.''
     = ''Text: price: $5 and ${HOME} and $x Files: ['' @ [DQUOTE] @ ''a.txt'' @ [DQUOTE] @ '',''
         @ [DQUOTE] @ ''b.txt'' @ [DQUOTE] @ ''].''"
    by code_simp
  ultimately have 1: "findFilesPrompt priceData sampleTemplate
     = ''Text: price: $5 and ${HOME} and $x Files: ['' @ [DQUOTE] @ ''a.txt'' @ [DQUOTE] @ '',''
         @ [DQUOTE] @ ''b.txt'' @ [DQUOTE] @ ''].''"
    by simp
  have n: "\<not> sublist ORIGINAL_CONTENT_PLACEHOLDER (''Files: '' @ PARSED_FILES_PLACEHOLDER)"
    by code_simp
  have g: "\<not> sublist PARSED_FILES_PLACEHOLDER (''Files: '' @ butlast PARSED_FILES_PLACEHOLDER)"
    by code_simp
  have "findFilesPrompt (sampleData [] []) (''Files: '' @ PARSED_FILES_PLACEHOLDER)
      = ''Files: '' @ parsedFilePaths (sampleData [] []) @ []"
    using findFilesPrompt_spec [OF c2 p2, of "''Files: '' @ PARSED_FILES_PLACEHOLDER"
        "''Files: ''" "[]"] n g
    by blast
  then have 2: "findFilesPrompt (sampleData [] []) (''Files: '' @ PARSED_FILES_PLACEHOLDER)
      = ''Files: Nessuno''"
    by (simp add: parsedFilePaths_def sampleData_def)
  show ?thesis using 1 2 by blast
qed

text \<open>
  With no file the marker put into the prompt is \<open>Nessuno\<close>, not \<open>None\<close>. And the project
  content does not always arrive as it is: in a replacement text \<open>$$\<close> stands for one
  dollar sign, so the content \<open>cost $$5\<close> enters the prompt as \<open>cost $5\<close>.
\<close>

theorem findFilesPrompt_marker_counterexample:
  "findFilesPrompt (sampleData [] []) (''Files: '' @ PARSED_FILES_PLACEHOLDER) = ''Files: Nessuno''
   \<and> findFilesPrompt (sampleData [] []) (''Files: '' @ PARSED_FILES_PLACEHOLDER) \<noteq> ''Files: None''
   \<and> findFilesPrompt dollarData ORIGINAL_CONTENT_PLACEHOLDER = ''cost $5''
   \<and> findFilesPrompt dollarData ORIGINAL_CONTENT_PLACEHOLDER \<noteq> fullProjectContent dollarData"
  by code_simp

end
